theory Spec2Isabelle
  imports Main "HOL-Library.AList"
begin

section \<open>The three revisions of the plugin\<close>

text \<open>
  The repository holds three revisions of the one source file of gulp-watchify:
  \<^verbatim>\<open>src/index.js\<close> (a common \<^verbatim>\<open>_handleError\<close>, the stream is ended by the debounce timer),
  \<^verbatim>\<open>src/unnamed/part_001\<close> (errors of the first bundle are fatal, option
  \<^verbatim>\<open>skipUpdateError\<close>) and \<^verbatim>\<open>src/unnamed/part_000\<close> (the counter
  \<^verbatim>\<open>_unresolvedAsyncs\<close>, options \<^verbatim>\<open>rebundleDelay\<close> and \<^verbatim>\<open>watcherMaxListeners\<close>).
  Every function below takes the revision and branches on it exactly where the three
  files differ. A private JavaScript field \<^verbatim>\<open>_x\<close> is written \<open>p_x\<close>.
\<close>

datatype revision = index_js | part_001 | part_000

section \<open>JavaScript values, objects and the store\<close>

text \<open>
  Numbers are the integers (no fractions, no NaN). \<open>JRef r\<close> is a reference to a plain
  object of the store, \<open>JBundler b\<close> a reference to the \<open>b\<close>-th bundler instance.
\<close>

datatype jsval =
    JUndefined | JNull | JBool bool | JNum int | JStr string | JRef nat | JBundler nat

fun truthy :: "jsval \<Rightarrow> bool" where
  "truthy JUndefined = False"
| "truthy JNull = False"
| "truthy (JBool b) = b"
| "truthy (JNum n) = (n \<noteq> 0)"
| "truthy (JStr s) = (s \<noteq> [])"
| "truthy (JRef r) = True"
| "truthy (JBundler b) = True"

text \<open>\<^verbatim>\<open>typeof v === 'boolean'\<close>\<close>

fun typeof_boolean :: "jsval \<Rightarrow> bool" where
  "typeof_boolean (JBool b) = True"
| "typeof_boolean v = False"

text \<open>The idiom \<^verbatim>\<open>(typeof o.x === 'boolean') ? o.x : true\<close>.\<close>

fun boolean_or_true :: "jsval \<Rightarrow> bool" where
  "boolean_or_true (JBool b) = b"
| "boolean_or_true v = True"

fun digits :: "nat \<Rightarrow> string" where
  "digits n = (if n < 10 then [''0123456789'' ! n]
               else digits (n div 10) @ [''0123456789'' ! (n mod 10)])"

text \<open>The string a value becomes when it is used as a property key.\<close>

fun ToString :: "jsval \<Rightarrow> string" where
  "ToString JUndefined = ''undefined''"
| "ToString JNull = ''null''"
| "ToString (JBool b) = (if b then ''true'' else ''false'')"
| "ToString (JNum n) = (if n < 0 then ''-'' @ digits (nat (- n)) else digits (nat n))"
| "ToString (JStr s) = s"
| "ToString (JRef r) = ''[object Object]''"
| "ToString (JBundler b) = ''[object Object]''"

text \<open>
  A plain object is an association list from property names to values; the store is
  the list of all plain objects, a reference is an index into it. Entry files, the
  bundler options, the two caches, the watcher table and the table of bundlers live
  in the store.
\<close>

type_synonym obj = "(string \<times> jsval) list"
type_synonym store = "obj list"

definition deref :: "store \<Rightarrow> nat \<Rightarrow> obj" where
  "deref h r = (if r < length h then h ! r else [])"

text \<open>
  \<^verbatim>\<open>v.k\<close> for a value \<open>v\<close> that is not undefined or null (every read in the source is
  behind such a test): a missing property and a property of a primitive are undefined.
\<close>

definition get_prop :: "store \<Rightarrow> jsval \<Rightarrow> string \<Rightarrow> jsval" where
  "get_prop h v k =
     (case v of
        JRef r \<Rightarrow> (case map_of (deref h r) k of Some x \<Rightarrow> x | None \<Rightarrow> JUndefined)
      | _ \<Rightarrow> JUndefined)"

text \<open>\<^verbatim>\<open>o[k] = v\<close> on the object at reference \<open>r\<close>.\<close>

definition set_prop :: "store \<Rightarrow> nat \<Rightarrow> string \<Rightarrow> jsval \<Rightarrow> store" where
  "set_prop h r k v = (if r < length h then h[r := AList.update k v (h ! r)] else h)"

text \<open>A new object: the store grows at its end, no existing reference changes.\<close>

definition alloc :: "store \<Rightarrow> obj \<Rightarrow> nat \<times> store" where
  "alloc h ob = (length h, h @ [ob])"

text \<open>\<^verbatim>\<open>shallow-copy\<close> of a plain object: a new object with the same properties.\<close>

definition copy :: "obj \<Rightarrow> obj" where
  "copy ob = ob"

section \<open>Files, errors and what the plugin does to the outside\<close>

datatype Buffer = Buffer string

text \<open>The argument of \<^verbatim>\<open>new gutil.File({contents, base, cwd, path})\<close>.\<close>

record File =
  contents :: Buffer
  base :: jsval
  cwd :: jsval
  path :: jsval

text \<open>\<^verbatim>\<open>new PluginError(plugin, error)\<close>\<close>

datatype PluginError = PluginError string jsval

text \<open>
  The invocation of \<^verbatim>\<open>_transform\<close> a callback belongs to: of the GulpWatchify stream
  for a chunk, or of the \<open>s\<close>-th ReBundle stream for a chunk.
\<close>

datatype transform_call = MainTransform jsval | ReTransform nat jsval

datatype emission = Update jsval nat | Rebundle nat

text \<open>
  The \<^verbatim>\<open>gutil.log\<close> lines by what they say; their wording, colours and time stamp
  differ between the revisions and are left out.
\<close>

datatype log_entry =
    LogBundling jsval
  | LogBundled jsval
  | LogUpdating jsval
  | LogReBundled jsval
  | LogEncounteredError "jsval option"
  | LogValue jsval
  | LogText string

datatype effect =
    Push File
  | Done transform_call "PluginError option"
  | Emit emission
  | Log log_entry
  | RWrite nat jsval
  | RPush nat "File option"
  | SetMaxListeners nat jsval

section \<open>Options and the stream objects\<close>

text \<open>
  The options object. Options that the source tests with \<^verbatim>\<open>typeof\<close> or for truth are
  arbitrary values; \<^verbatim>\<open>bundlerOptions\<close> and \<^verbatim>\<open>bundlers\<close> are a plain object or absent,
  \<^verbatim>\<open>Bundler\<close> a constructor function or absent, \<^verbatim>\<open>rebundleDelay\<close> a number or absent,
  \<^verbatim>\<open>transforms\<close> an array of \<^verbatim>\<open>{opts, tr}\<close> pairs (absent is the empty array).
\<close>

record options =
  opt_verbose :: jsval
  opt_watch :: jsval
  opt_primeCache :: jsval
  opt_shareWatchers :: jsval
  opt_watcherMaxListeners :: jsval
  opt_bundlerOptions :: "nat option"
  opt_rebundle :: jsval
  opt_rebundleDelay :: "int option"
  opt_skipUpdateError :: jsval
  opt_skipError :: jsval
  opt_Bundler :: "nat option"
  opt_transforms :: "(jsval \<times> jsval) list"
  opt_bundlers :: "nat option"

definition no_options :: options where
  "no_options =
     \<lparr> opt_verbose = JUndefined, opt_watch = JUndefined, opt_primeCache = JUndefined,
       opt_shareWatchers = JUndefined, opt_watcherMaxListeners = JUndefined,
       opt_bundlerOptions = None, opt_rebundle = JUndefined, opt_rebundleDelay = None,
       opt_skipUpdateError = JUndefined, opt_skipError = JUndefined, opt_Bundler = None,
       opt_transforms = [], opt_bundlers = None \<rparr>"

datatype Bundler = watchify | browserify | Custom nat

text \<open>
  \<^verbatim>\<open>AbstractBundleStream\<close>: index.js sets \<^verbatim>\<open>_skipError\<close>, part_001 sets
  \<^verbatim>\<open>_skipUpdateError\<close>, part_000 sets neither here. A field that a revision never
  sets is undefined.
\<close>

record AbstractBundleStream =
  verbose :: bool
  p_skipError :: jsval
  p_skipUpdateError :: jsval

definition AbstractBundleStream ::
  "revision \<Rightarrow> jsval \<Rightarrow> jsval \<Rightarrow> jsval \<Rightarrow> AbstractBundleStream" where
  "AbstractBundleStream rv o_verbose o_skipError o_skipUpdateError =
     \<lparr> verbose = boolean_or_true o_verbose,
       p_skipError =
         (if rv = index_js then JBool (boolean_or_true o_skipError) else JUndefined),
       p_skipUpdateError =
         (if rv = part_001 then JBool (boolean_or_true o_skipUpdateError)
          else JUndefined) \<rparr>"

text \<open>
  A ReBundle stream. \<open>buffered\<close> and \<open>transforming\<close> are the state of Node's Transform
  that the stream inherits: the chunks written and not yet handed to \<^verbatim>\<open>_transform\<close>,
  and whether a \<^verbatim>\<open>_transform\<close> is waiting for its callback.
\<close>

record ReBundle = AbstractBundleStream +
  p_bundlerInstance :: nat
  p_unresolvedAsyncs :: int
  buffered :: "jsval list"
  transforming :: bool

definition ReBundle :: "revision \<Rightarrow> nat \<Rightarrow> jsval \<Rightarrow> jsval \<Rightarrow> jsval \<Rightarrow> ReBundle" where
  "ReBundle rv bundlerInstance o_verbose o_skipError o_skipUpdateError =
     (let a = AbstractBundleStream rv o_verbose o_skipError o_skipUpdateError
      in \<lparr> verbose = verbose a,
           p_skipError = p_skipError a,
           p_skipUpdateError =
             (if rv = part_000 then JBool (boolean_or_true o_skipUpdateError)
              else p_skipUpdateError a),
           p_bundlerInstance = bundlerInstance,
           p_unresolvedAsyncs = 0,
           buffered = [],
           transforming = False \<rparr>)"

record GulpWatchify = AbstractBundleStream +
  watch :: bool
  p_watcherMaxListeners :: jsval
  bundlerOptions :: nat
  p_rebundle :: jsval
  p_rebundleDelay :: "int option"
  p_bundler :: Bundler
  p_transforms :: "(jsval \<times> jsval) list"
  p_depsCache :: jsval
  p_packageCache :: jsval
  p_watchers :: jsval
  p_bundlers :: nat
  p_rebundleStream :: "nat option"
  p_rebundleTimeout :: "nat option"

text \<open>\<^verbatim>\<open>if (c) { this.f = {} }\<close>: a new empty object, or the field stays undefined.\<close>

definition new_object_if :: "bool \<Rightarrow> store \<Rightarrow> jsval \<times> store" where
  "new_object_if c h = (if c then (JRef (length h), h @ [[]]) else (JUndefined, h))"

text \<open>\<^verbatim>\<open>o || {}\<close> for an option that is an object or absent.\<close>

definition object_or_new :: "nat option \<Rightarrow> store \<Rightarrow> nat \<times> store" where
  "object_or_new r h = (case r of Some x \<Rightarrow> (x, h) | None \<Rightarrow> alloc h [])"

text \<open>
  The constructor \<^verbatim>\<open>GulpWatchify(options)\<close>, on the store it allocates in;
  \<open>options_or_empty\<close> is \<^verbatim>\<open>options || {}\<close>. Line 164
  of index.js tests \<^verbatim>\<open>typeof options.skipError\<close> where the later revisions test
  \<^verbatim>\<open>typeof options.rebundle\<close>. The bundler is chosen from \<^verbatim>\<open>options.watch\<close> itself.
  The defaulted \<^verbatim>\<open>options.primeCache\<close> and \<^verbatim>\<open>options.shareWatchers\<close>, which the source
  writes back into the options object, are the local values \<open>primeCache\<close>, \<open>shareWatchers\<close>.
\<close>

definition options_or_empty :: "options option \<Rightarrow> options" where
  "options_or_empty options_arg = (case options_arg of Some x \<Rightarrow> x | None \<Rightarrow> no_options)"

definition GulpWatchify :: "revision \<Rightarrow> options option \<Rightarrow> store \<Rightarrow> GulpWatchify \<times> store" where
  "GulpWatchify rv options_arg h =
     (let options = options_or_empty options_arg;
          a = AbstractBundleStream rv (opt_verbose options) (opt_skipError options)
                (opt_skipUpdateError options);
          primeCache = boolean_or_true (opt_primeCache options);
          shareWatchers = boolean_or_true (opt_shareWatchers options);
          (bo, h1) = object_or_new (opt_bundlerOptions options) h;
          (dc, h2) = new_object_if primeCache h1;
          (pc, h3) = new_object_if primeCache h2;
          (ws, h4) = new_object_if shareWatchers h3;
          (bs, h5) = object_or_new (opt_bundlers options) h4
      in (\<lparr> verbose = verbose a,
             p_skipError = p_skipError a,
             p_skipUpdateError =
               (if rv = part_000 then JBool (boolean_or_true (opt_skipUpdateError options))
                else p_skipUpdateError a),
             watch = boolean_or_true (opt_watch options),
             p_watcherMaxListeners =
               (if rv = part_000 then opt_watcherMaxListeners options else JUndefined),
             bundlerOptions = bo,
             p_rebundle =
               (if rv = index_js
                then (if typeof_boolean (opt_skipError options) then opt_rebundle options
                      else JBool True)
                else JBool (boolean_or_true (opt_rebundle options))),
             p_rebundleDelay =
               (if rv = part_000 then opt_rebundleDelay options else None),
             p_bundler =
               (case opt_Bundler options of
                  Some c \<Rightarrow> Custom c
                | None \<Rightarrow> (if truthy (opt_watch options) then watchify else browserify)),
             p_transforms = opt_transforms options,
             p_depsCache = dc,
             p_packageCache = pc,
             p_watchers = ws,
             p_bundlers = bs,
             p_rebundleStream = None,
             p_rebundleTimeout = None \<rparr>, h5))"

section \<open>The world: the plugin instance and its environment\<close>

text \<open>
  A bundler instance as the plugin made it: the constructor called, the options object
  it was called with, the files added, the transforms applied, and the entry file its
  update handler closes over.
\<close>

record bundler_instance =
  b_ctor :: Bundler
  b_opts :: obj
  b_added :: "jsval list"
  b_transforms :: "(jsval \<times> jsval) list"
  b_srcFile :: jsval

text \<open>
  \<open>pending\<close>: the bundle callbacks handed to a bundler and not yet called; a bundler
  calls a callback later, never from inside \<^verbatim>\<open>bundle\<close>.
  \<open>timers\<close>: the pending timeouts, each with its id, the time it is due and the ReBundle
  stream its callback closes over. \<open>effects\<close>: what the plugin did to the outside, in
  order, each with the time it happened.
\<close>

record world =
  store :: store
  gw :: GulpWatchify
  streams :: "ReBundle list"
  bundlers :: "bundler_instance list"
  pending :: "(nat \<times> transform_call) list"
  timers :: "(nat \<times> nat \<times> nat) list"
  next_timer :: nat
  now :: nat
  effects :: "(nat \<times> effect) list"

definition eff :: "effect \<Rightarrow> world \<Rightarrow> world" where
  "eff e w = w\<lparr>effects := effects w @ [(now w, e)]\<rparr>"

definition upd_stream :: "nat \<Rightarrow> (ReBundle \<Rightarrow> ReBundle) \<Rightarrow> world \<Rightarrow> world" where
  "upd_stream s f w = w\<lparr>streams := (streams w)[s := f (streams w ! s)]\<rparr>"

text \<open>\<^verbatim>\<open>_createBundleFile(srcFile, source)\<close>\<close>

definition createBundleFile :: "store \<Rightarrow> jsval \<Rightarrow> string \<Rightarrow> File" where
  "createBundleFile h srcFile source =
     \<lparr> contents = Buffer source,
       base = get_prop h srcFile ''base'',
       cwd = get_prop h srcFile ''cwd'',
       path = get_prop h srcFile ''path'' \<rparr>"

text \<open>\<^verbatim>\<open>ReBundle.prototype.registerAsync\<close> and \<^verbatim>\<open>finishIfResolved\<close> (part_000 only).\<close>

definition registerAsync :: "nat \<Rightarrow> world \<Rightarrow> world" where
  "registerAsync s w =
     upd_stream s (\<lambda>r. r\<lparr>p_unresolvedAsyncs := p_unresolvedAsyncs r + 1\<rparr>) w"

definition finishIfResolved :: "nat \<Rightarrow> world \<Rightarrow> world" where
  "finishIfResolved s w =
     (let w1 = upd_stream s (\<lambda>r. r\<lparr>p_unresolvedAsyncs := p_unresolvedAsyncs r - 1\<rparr>) w
      in if p_unresolvedAsyncs (streams w1 ! s) = 0 then eff (RPush s None) w1 else w1)"

text \<open>
  \<^verbatim>\<open>ReBundle.prototype._transform\<close> up to the call of \<^verbatim>\<open>bundle\<close>: the callback is handed
  to the bundler, which calls it later (\<open>ReBundle_bundled\<close>).
\<close>

definition ReBundle_transform :: "revision \<Rightarrow> nat \<Rightarrow> jsval \<Rightarrow> world \<Rightarrow> world" where
  "ReBundle_transform rv s srcFile w =
     (let self = streams w ! s;
          w1 = w\<lparr>pending := pending w @ [(p_bundlerInstance self, ReTransform s srcFile)]\<rparr>;
          w2 = (if rv = part_000 then registerAsync s w1 else w1)
      in if rv = part_001 \<or> verbose self
         then eff (Log (LogUpdating (get_prop (store w2) srcFile ''path''))) w2
         else w2)"

text \<open>
  Node's Transform, for a ReBundle stream. \<^verbatim>\<open>write\<close> hands the chunk to \<^verbatim>\<open>_transform\<close>
  when no \<^verbatim>\<open>_transform\<close> is waiting for its callback, and buffers it otherwise. The
  callback \<^verbatim>\<open>done\<close> without an error hands the next buffered chunk to \<^verbatim>\<open>_transform\<close>
  before it returns; with an error it reports the error and hands on nothing. The
  readable side is taken to be read by its consumer, so that no chunk waits for room.
\<close>

definition stream_write :: "revision \<Rightarrow> nat \<Rightarrow> jsval \<Rightarrow> world \<Rightarrow> world" where
  "stream_write rv s chunk w =
     (let w1 = eff (RWrite s chunk) w
      in if transforming (streams w1 ! s)
         then upd_stream s (\<lambda>r. r\<lparr>buffered := buffered r @ [chunk]\<rparr>) w1
         else ReBundle_transform rv s chunk (upd_stream s (\<lambda>r. r\<lparr>transforming := True\<rparr>) w1))"

definition stream_done ::
  "revision \<Rightarrow> nat \<Rightarrow> jsval \<Rightarrow> PluginError option \<Rightarrow> world \<Rightarrow> world" where
  "stream_done rv s chunk e w =
     (let w1 = eff (Done (ReTransform s chunk) e) w
      in case e of
           Some x \<Rightarrow> upd_stream s (\<lambda>r. r\<lparr>transforming := False\<rparr>) w1
         | None \<Rightarrow>
             (case buffered (streams w1 ! s) of
                [] \<Rightarrow> upd_stream s (\<lambda>r. r\<lparr>transforming := False\<rparr>) w1
              | c # cs \<Rightarrow>
                  ReBundle_transform rv s c (upd_stream s (\<lambda>r. r\<lparr>buffered := cs\<rparr>) w1)))"

text \<open>\<^verbatim>\<open>AbstractBundleStream.prototype._handleError\<close> (index.js only).\<close>

definition handleError ::
  "jsval \<Rightarrow> bool \<Rightarrow> jsval \<Rightarrow> (PluginError option \<Rightarrow> world \<Rightarrow> world) \<Rightarrow> world \<Rightarrow> world" where
  "handleError self_skipError self_verbose err done w =
     (if \<not> truthy self_skipError then done (Some (PluginError ''gulp-watchify'' err)) w
      else done None
             (if self_verbose
              then eff (Log (LogValue err)) (eff (Log (LogEncounteredError None)) w)
              else w))"

text \<open>
  The callback that \<^verbatim>\<open>ReBundle.prototype._transform\<close> gives to \<^verbatim>\<open>bundle\<close>. In index.js
  \<^verbatim>\<open>_handleError\<close> returns nothing, so the callback returns after it whenever there is
  an error.
\<close>

definition ReBundle_bundled ::
  "revision \<Rightarrow> nat \<Rightarrow> jsval \<Rightarrow> jsval \<Rightarrow> string \<Rightarrow> world \<Rightarrow> world" where
  "ReBundle_bundled rv s srcFile err source w =
     (let self = streams w ! s;
          done = stream_done rv s srcFile
      in if truthy err
         then (if rv = index_js then handleError (p_skipError self) (verbose self) err done w
               else if \<not> truthy (p_skipUpdateError self)
               then done (Some (PluginError ''gulp-watchify'' err)) w
               else (let w1 = eff (Log (LogEncounteredError
                                         (Some (get_prop (store w) srcFile ''path'')))) w;
                         w2 = eff (Log (LogValue err)) w1;
                         w3 = done None w2
                     in if rv = part_000 then finishIfResolved s w3 else w3))
         else (let file = createBundleFile (store w) srcFile source;
                   w1 = eff (RPush s (Some file)) w;
                   w2 = (if verbose self
                         then eff (Log (LogReBundled (get_prop (store w1) srcFile ''path''))) w1
                         else w1);
                   w3 = done None w2
               in if rv = part_000 then finishIfResolved s w3 else w3))"

text \<open>
  \<^verbatim>\<open>GulpWatchify.prototype._transform\<close> up to the call of \<^verbatim>\<open>bundle\<close>; the bundler calls
  \<open>firstBundleCallback\<close> later.
\<close>

definition GulpWatchify_transform :: "revision \<Rightarrow> jsval \<Rightarrow> world \<Rightarrow> world" where
  "GulpWatchify_transform rv srcFile w =
     (if \<not> truthy srcFile \<or> \<not> truthy (get_prop (store w) srcFile ''path'')
      then eff (Done (MainTransform srcFile)
                  (Some (PluginError ''gulp-watchify''
                           (JStr ''Expected a source file with a path'')))) w
      else (let self = gw w;
                opts0 = copy (deref (store w) (bundlerOptions self));
                opts1 = AList.update ''cache'' (p_depsCache self) opts0;
                opts2 = AList.update ''pkgCache'' (p_packageCache self) opts1;
                opts3 = AList.update ''packageCache'' (p_packageCache self) opts2;
                opts = AList.update ''watchers'' (p_watchers self) opts3;
                b = length (bundlers w);
                bundler = \<lparr> b_ctor = p_bundler self, b_opts = opts, b_added = [srcFile],
                            b_transforms = p_transforms self, b_srcFile = srcFile \<rparr>;
                w1 = w\<lparr>bundlers := bundlers w @ [bundler]\<rparr>;
                w2 = w1\<lparr>store := set_prop (store w1) (p_bundlers self)
                                    (ToString (get_prop (store w1) srcFile ''path''))
                                    (JBundler b)\<rparr>;
                w3 = w2\<lparr>pending := pending w2 @ [(b, MainTransform srcFile)]\<rparr>
            in if verbose self
               then eff (Log (LogBundling (get_prop (store w3) srcFile ''path''))) w3
               else w3))"

definition firstBundleCallback ::
  "revision \<Rightarrow> jsval \<Rightarrow> jsval \<Rightarrow> string \<Rightarrow> world \<Rightarrow> world" where
  "firstBundleCallback rv srcFile err source w =
     (let self = gw w;
          done = (\<lambda>e. eff (Done (MainTransform srcFile) e))
      in if truthy err
         then (if rv = index_js then handleError (p_skipError self) (verbose self) err done w
               else done (Some (PluginError ''gulp-watchify'' err)) w)
         else (let file = createBundleFile (store w) srcFile source;
                   w1 = eff (Push file) w;
                   w2 = (if verbose self
                         then eff (Log (LogBundled (get_prop (store w1) srcFile ''path''))) w1
                         else w1)
               in done None w2))"

text \<open>
  Timers. \<^verbatim>\<open>clearTimeout(id)\<close> removes the pending timeout with that id, if there is
  one. \<^verbatim>\<open>setTimeout(f, ms)\<close> takes a delay outside 1 .. 2147483647 as 1.
\<close>

definition clearTimeout :: "nat option \<Rightarrow> world \<Rightarrow> world" where
  "clearTimeout t w =
     (case t of
        None \<Rightarrow> w
      | Some i \<Rightarrow> w\<lparr>timers := filter (\<lambda>(j, dl, s). j \<noteq> i) (timers w)\<rparr>)"

definition timeout_ms :: "int \<Rightarrow> nat" where
  "timeout_ms ms = (if 1 \<le> ms \<and> ms \<le> 2147483647 then nat ms else 1)"

text \<open>\<^verbatim>\<open>self._rebundleDelay || 400\<close> (800 in index.js), as \<^verbatim>\<open>setTimeout\<close> takes it.\<close>

definition rebundle_delay :: "revision \<Rightarrow> GulpWatchify \<Rightarrow> nat" where
  "rebundle_delay rv self =
     timeout_ms (case p_rebundleDelay self of
                   Some ms \<Rightarrow> (if ms \<noteq> 0 then ms else if rv = index_js then 800 else 400)
                 | None \<Rightarrow> (if rv = index_js then 800 else 400))"

text \<open>The function given to \<^verbatim>\<open>setTimeout\<close> in \<^verbatim>\<open>_handleUpdate\<close>, closed over the stream.\<close>

definition timeout_callback :: "revision \<Rightarrow> nat \<Rightarrow> world \<Rightarrow> world" where
  "timeout_callback rv s w =
     (let w1 = (if rv = part_000 then finishIfResolved s w else eff (RPush s None) w)
      in w1\<lparr>gw := (gw w1)\<lparr>p_rebundleStream := None\<rparr>\<rparr>)"

text \<open>
  \<^verbatim>\<open>GulpWatchify.prototype._handleUpdate\<close>. The options of the new ReBundle are
  \<^verbatim>\<open>verbose\<close> and, in part_000 and part_001, \<^verbatim>\<open>skipUpdateError: self._skipUpdateError\<close>;
  index.js passes \<^verbatim>\<open>skipError: self.skipError\<close>, a property the instance never sets.
\<close>

definition handleUpdate :: "revision \<Rightarrow> jsval \<Rightarrow> nat \<Rightarrow> world \<Rightarrow> world" where
  "handleUpdate rv srcFile bundler w =
     (if \<not> truthy (p_rebundle (gw w)) then w
      else (let w1 = clearTimeout (p_rebundleTimeout (gw w)) w;
                (s, w2) =
                  (case p_rebundleStream (gw w1) of
                     Some s \<Rightarrow> (s, w1)
                   | None \<Rightarrow>
                       (let s = length (streams w1);
                            w1a = (if rv = index_js
                                   then eff (Log (LogText ''_rebundleStream definition'')) w1
                                   else w1);
                            rebundle = ReBundle rv bundler (JBool (verbose (gw w1a)))
                                         JUndefined (p_skipUpdateError (gw w1a));
                            w1b = w1a\<lparr>streams := streams w1a @ [rebundle],
                                      gw := (gw w1a)\<lparr>p_rebundleStream := Some s\<rparr>\<rparr>;
                            w1c = eff (Emit (Rebundle s)) w1b
                        in (s, if rv = part_000 then registerAsync s w1c else w1c)));
                w3 = stream_write rv s srcFile w2;
                t = next_timer w3
            in w3\<lparr>timers := timers w3 @ [(t, now w3 + rebundle_delay rv (gw w3), s)],
                  next_timer := t + 1,
                  gw := (gw w3)\<lparr>p_rebundleTimeout := Some t\<rparr>\<rparr>))"

text \<open>
  Time passes: every timeout that is due by the new time runs, at the time it is due,
  the earlier set first. \<open>fire\<close> runs the callbacks of the timeouts that are due.
\<close>

definition fire :: "revision \<Rightarrow> world \<Rightarrow> (nat \<times> nat \<times> nat) list \<Rightarrow> world" where
  "fire rv w due =
     foldl (\<lambda>v (i, dl, s). timeout_callback rv s (v\<lparr>now := max (now v) dl\<rparr>)) w due"

definition elapse :: "revision \<Rightarrow> nat \<Rightarrow> world \<Rightarrow> world" where
  "elapse rv d w =
     (let t = now w + d;
          due = filter (\<lambda>(i, dl, s). dl \<le> t) (timers w);
          w1 = w\<lparr>timers := filter (\<lambda>(i, dl, s). \<not> dl \<le> t) (timers w)\<rparr>
      in (fire rv w1 due)\<lparr>now := t\<rparr>)"

text \<open>
  What the environment does: Node calls \<^verbatim>\<open>_transform\<close> of the GulpWatchify stream with
  a chunk; a bundler calls the \<open>i\<close>-th pending bundle callback with an error value and
  a source; a bundler emits 'update' or 'watch' (the handlers registered in
  \<^verbatim>\<open>_transform\<close>; the 'watch' handler of part_000 reads \<^verbatim>\<open>_watcherMaxListeners\<close> of the
  bundler, whose value the event carries); time passes; code outside the plugin
  replaces an object of the store. The 'end' listeners of the two streams only log and
  \<^verbatim>\<open>_flush\<close> only calls its callback; they are left out.
\<close>

datatype event =
    Transform jsval
  | BundleDone nat jsval string
  | UpdateEv nat
  | WatchEv nat jsval
  | Elapse nat
  | External nat obj

definition step :: "revision \<Rightarrow> event \<Rightarrow> world \<Rightarrow> world" where
  "step rv ev w =
     (case ev of
        Transform v \<Rightarrow> GulpWatchify_transform rv v w
      | BundleDone i err source \<Rightarrow>
          (if i < length (pending w)
           then (let call = snd (pending w ! i);
                     w1 = w\<lparr>pending := take i (pending w) @ drop (Suc i) (pending w)\<rparr>
                 in case call of
                      MainTransform f \<Rightarrow> firstBundleCallback rv f err source w1
                    | ReTransform s f \<Rightarrow> ReBundle_bundled rv s f err source w1)
           else w)
      | UpdateEv b \<Rightarrow>
          (if b < length (bundlers w)
           then (let f = b_srcFile (bundlers w ! b)
                 in handleUpdate rv f b (eff (Emit (Update f b)) w))
           else w)
      | WatchEv b v \<Rightarrow>
          (if b < length (bundlers w)
           then eff (SetMaxListeners b
                       (if rv = part_000 \<and> truthy v then v else JNum 50)) w
           else w)
      | Elapse d \<Rightarrow> elapse rv d w
      | External r ob \<Rightarrow> w\<lparr>store := (store w)[r := ob]\<rparr>)"

definition run :: "revision \<Rightarrow> event list \<Rightarrow> world \<Rightarrow> world" where
  "run rv evs w = foldl (\<lambda>v e. step rv e v) w evs"

text \<open>\<^verbatim>\<open>module.exports(options)\<close>: a new instance, nothing has happened yet.\<close>

definition init :: "revision \<Rightarrow> options option \<Rightarrow> store \<Rightarrow> world" where
  "init rv options_arg h =
     (let (g, h') = GulpWatchify rv options_arg h
      in \<lparr> store = h', gw = g, streams = [], bundlers = [], pending = [], timers = [],
           next_timer = 0, now = 0, effects = [] \<rparr>)"

text \<open>An entry file for the examples: one object with a path, a base and a cwd.\<close>

definition example_store :: store where
  "example_store =
     [[(''path'', JStr ''a.js''), (''base'', JStr ''/b''), (''cwd'', JStr ''/c'')]]"

text \<open>
  What an observer reads off the effects: the 'update' events emitted, with their times
  and entry files; the streams handed out with 'rebundle'; the chunks written to the
  \<open>s\<close>-th ReBundle stream.
\<close>

definition updates_of :: "(nat \<times> effect) list \<Rightarrow> (nat \<times> jsval) list" where
  "updates_of es =
     concat (map (\<lambda>(t, e). case e of Emit (Update f b) \<Rightarrow> [(t, f)] | _ \<Rightarrow> []) es)"

definition rebundles_of :: "(nat \<times> effect) list \<Rightarrow> nat list" where
  "rebundles_of es =
     concat (map (\<lambda>(t, e). case e of Emit (Rebundle s) \<Rightarrow> [s] | _ \<Rightarrow> []) es)"

definition writes_to :: "nat \<Rightarrow> (nat \<times> effect) list \<Rightarrow> jsval list" where
  "writes_to s es =
     concat (map (\<lambda>(t, e). case e of RWrite s' f \<Rightarrow> (if s' = s then [f] else []) | _ \<Rightarrow> []) es)"

text \<open>The stream \<^verbatim>\<open>_handleUpdate\<close> writes to: the one at hand, or the one it makes.\<close>

definition current_stream :: "world \<Rightarrow> nat" where
  "current_stream w = (case p_rebundleStream (gw w) of Some s \<Rightarrow> s | None \<Rightarrow> length (streams w))"

text \<open>At most one timeout is pending, and it is the one \<^verbatim>\<open>_rebundleTimeout\<close> names.\<close>

definition one_timer :: "world \<Rightarrow> bool" where
  "one_timer w =
     (case timers w of
        [] \<Rightarrow> True
      | [(t, dl, s)] \<Rightarrow> p_rebundleTimeout (gw w) = Some t
      | _ \<Rightarrow> False)"

text \<open>
  The bursts of a list of timed events, in the words of the claim: an event that comes
  less than \<open>D\<close> after the one before it belongs to the same burst, any other event
  starts a new burst. \<open>bursts_acc D l cur\<close> goes on with the burst \<open>cur\<close> whose last event
  came at time \<open>l\<close>.
\<close>

fun bursts_acc :: "nat \<Rightarrow> nat \<Rightarrow> 'a list \<Rightarrow> (nat \<times> 'a) list \<Rightarrow> 'a list list" where
  "bursts_acc D l cur [] = [cur]"
| "bursts_acc D l cur ((t, x) # ups) =
     (if t < l + D then bursts_acc D t (cur @ [x]) ups else cur # bursts_acc D t [x] ups)"

fun bursts :: "nat \<Rightarrow> (nat \<times> 'a) list \<Rightarrow> 'a list list" where
  "bursts D [] = []"
| "bursts D ((t, x) # ups) = bursts_acc D t [x] ups"

text \<open>
  The invariant behind the bursts: the streams made so far are the bursts of the updates
  so far, and a timeout is pending exactly while the last update is less than \<open>D\<close> old.
\<close>

definition burst_inv :: "revision \<Rightarrow> nat \<Rightarrow> world \<Rightarrow> bool" where
  "burst_inv rv D w =
     (let ups = updates_of (effects w); B = bursts D ups; n = length (streams w)
      in truthy (p_rebundle (gw w)) \<and> rebundle_delay rv (gw w) = D
         \<and> length B = n
         \<and> (\<forall>s<n. writes_to s (effects w) = B ! s)
         \<and> (\<forall>s. n \<le> s \<longrightarrow> writes_to s (effects w) = [])
         \<and> rebundles_of (effects w) = [0..<n]
         \<and> (case timers w of
               [] \<Rightarrow> p_rebundleStream (gw w) = None \<and> (ups = [] \<or> fst (last ups) + D \<le> now w)
             | [(t, dl, s)] \<Rightarrow>
                 p_rebundleStream (gw w) = Some s \<and> p_rebundleTimeout (gw w) = Some t
                 \<and> ups \<noteq> [] \<and> Suc s = n \<and> dl = fst (last ups) + D \<and> now w < dl
             | _ \<Rightarrow> False))"

text \<open>Two updates 100 ms apart, and a third 400 ms after the second.\<close>

definition example_updates :: "event list" where
  "example_updates =
     [Transform (JRef 0), UpdateEv 0, Elapse 100, UpdateEv 0, Elapse 400, UpdateEv 0]"

text \<open>The bundlers made so far were each given the two caches and the watcher table of the instance.\<close>

definition given_caches :: "GulpWatchify \<Rightarrow> bundler_instance \<Rightarrow> bool" where
  "given_caches g b =
     (map_of (b_opts b) ''cache'' = Some (p_depsCache g)
      \<and> map_of (b_opts b) ''pkgCache'' = Some (p_packageCache g)
      \<and> map_of (b_opts b) ''packageCache'' = Some (p_packageCache g)
      \<and> map_of (b_opts b) ''watchers'' = Some (p_watchers g))"

text \<open>What a ReBundle stream is made with and never changes.\<close>

definition config :: "ReBundle \<Rightarrow> bool \<times> jsval \<times> jsval \<times> nat" where
  "config r = (verbose r, p_skipError r, p_skipUpdateError r, p_bundlerInstance r)"

text \<open>
  Every reference to a ReBundle stream (of a pending bundle callback, of a pending
  timeout, of \<^verbatim>\<open>_rebundleStream\<close>) is to a stream that exists, and every stream
  has the \<^verbatim>\<open>_skipUpdateError\<close> of the instance.
\<close>

definition streams_ok :: "bool \<Rightarrow> world \<Rightarrow> bool" where
  "streams_ok sk w =
     ((\<forall>x\<in>set (pending w).
         case snd x of ReTransform s f \<Rightarrow> s < length (streams w) | MainTransform f \<Rightarrow> True)
      \<and> (\<forall>x\<in>set (timers w). snd (snd x) < length (streams w))
      \<and> (case p_rebundleStream (gw w) of Some s \<Rightarrow> s < length (streams w) | None \<Rightarrow> True)
      \<and> p_skipUpdateError (gw w) = JBool sk
      \<and> (\<forall>c\<in>set (map config (streams w)). fst (snd (snd c)) = JBool sk))"

text \<open>A run in which a rebundle callback is pending while a second chunk is buffered.\<close>

definition example_fatal :: world where
  "example_fatal =
     run part_000 example_updates
       (init part_000 (Some (no_options\<lparr>opt_skipUpdateError := JBool False\<rparr>)) example_store)"

text \<open>index.js with no options: an entry file is written and its first bundle fails.\<close>

definition example_first_bundle_fails :: world where
  "example_first_bundle_fails =
     run index_js [Transform (JRef 0), BundleDone 0 (JStr ''boom'') ''src'']
       (init index_js None example_store)"

text \<open>
  index.js with the options \<^verbatim>\<open>{rebundle: false}\<close>: an entry file is written and its
  bundler emits 'update'.
\<close>

definition example_rebundle_false :: world where
  "example_rebundle_false =
     run index_js [Transform (JRef 0), UpdateEv 0]
       (init index_js (Some (no_options\<lparr>opt_rebundle := JBool False\<rparr>)) example_store)"

text \<open>
  index.js with no options: an entry file is written, its bundler emits 'update', and
  the 800 ms of the timeout pass before the bundler calls back.
\<close>

definition example_timeout_first :: world where
  "example_timeout_first =
     run index_js [Transform (JRef 0), UpdateEv 0, Elapse 800] (init index_js None example_store)"

text \<open>
  For the \<open>s\<close>-th ReBundle stream: the bundle callbacks still pending, the timeouts still
  pending, the callbacks answered with a plugin error, and whether the end marker was
  pushed.
\<close>

definition for_stream :: "nat \<Rightarrow> nat \<times> transform_call \<Rightarrow> bool" where
  "for_stream s x = (case snd x of ReTransform s' f \<Rightarrow> s' = s | MainTransform f \<Rightarrow> False)"

definition outstanding :: "nat \<Rightarrow> world \<Rightarrow> nat" where
  "outstanding s w = length (filter (for_stream s) (pending w))"

definition armed :: "nat \<Rightarrow> world \<Rightarrow> nat" where
  "armed s w = length (filter (\<lambda>x. snd (snd x) = s) (timers w))"

definition fatal_of :: "nat \<Rightarrow> (nat \<times> effect) list \<Rightarrow> nat" where
  "fatal_of s es =
     length (filter (\<lambda>x. case snd x of
                             Done (ReTransform s' f) (Some e) \<Rightarrow> s' = s
                           | _ \<Rightarrow> False) es)"

definition ended_in :: "nat \<Rightarrow> (nat \<times> effect) list \<Rightarrow> bool" where
  "ended_in s es = (\<exists>x\<in>set es. snd x = RPush s None)"

definition cnt :: "nat \<Rightarrow> world \<Rightarrow> int" where
  "cnt s w = p_unresolvedAsyncs (streams w ! s)"

definition buf :: "nat \<Rightarrow> world \<Rightarrow> jsval list" where
  "buf s w = buffered (streams w ! s)"

definition trf :: "nat \<Rightarrow> world \<Rightarrow> bool" where
  "trf s w = transforming (streams w ! s)"

text \<open>
  The invariant of part_000 for one stream: the counter \<^verbatim>\<open>_unresolvedAsyncs\<close> counts the
  pending timeout, the pending bundle callbacks and the callbacks answered with an
  error; chunks wait in the buffer, or a transform waits for its callback, only while
  a bundle callback is pending (or one has failed for good); and once the end marker is
  pushed the counter is zero.
\<close>

definition stream_inv :: "nat \<Rightarrow> world \<Rightarrow> bool" where
  "stream_inv s w \<longleftrightarrow>
     cnt s w = int (armed s w + outstanding s w + fatal_of s (effects w))
     \<and> (buf s w \<noteq> [] \<longrightarrow> 0 < outstanding s w + fatal_of s (effects w))
     \<and> (trf s w \<longrightarrow> 0 < outstanding s w)
     \<and> (ended_in s (effects w) \<longrightarrow> cnt s w = 0)"

text \<open>
  The invariant of part_000 for the world: references to streams are to streams that
  exist; either no timeout is pending and no stream is at hand, or the one pending
  timeout and \<^verbatim>\<open>_rebundleStream\<close> are for the same stream; every stream has its
  invariant; nothing was done yet to streams that do not exist.
\<close>

definition async_inv :: "world \<Rightarrow> bool" where
  "async_inv w \<longleftrightarrow>
     (\<forall>b s f. (b, ReTransform s f) \<in> set (pending w) \<longrightarrow> s < length (streams w))
     \<and> ((timers w = [] \<and> p_rebundleStream (gw w) = None)
        \<or> (\<exists>t dl s. timers w = [(t, dl, s)] \<and> p_rebundleTimeout (gw w) = Some t
              \<and> p_rebundleStream (gw w) = Some s \<and> s < length (streams w)))
     \<and> (\<forall>s<length (streams w). stream_inv s w)
     \<and> (\<forall>s. length (streams w) \<le> s \<longrightarrow>
            fatal_of s (effects w) = 0 \<and> \<not> ended_in s (effects w))"

text \<open>
  index.js with the options \<^verbatim>\<open>{skipError: false}\<close>: an entry file is written and its
  first bundle is pending.
\<close>

definition example_skipError_false :: world where
  "example_skipError_false =
     run index_js [Transform (JRef 0)]
       (init index_js (Some (no_options\<lparr>opt_skipError := JBool False\<rparr>)) example_store)"

section \<open>The constructor\<close>

text \<open>
  C8: when no Bundler is given in the options, watchify is chosen exactly when the raw
  value of \<^verbatim>\<open>options.watch\<close> is truthy. With no options at all the \<open>watch\<close> flag of the
  instance is true and yet browserify is chosen. This holds in all three revisions.
\<close>

theorem bundler_selected_by_raw_watch:
  "(opt_Bundler opts = None \<longrightarrow>
      p_bundler (fst (GulpWatchify rv (Some opts) h)) =
        (if truthy (opt_watch opts) then watchify else browserify))
   \<and> watch (fst (GulpWatchify rv None h)) = True
   \<and> p_bundler (fst (GulpWatchify rv None h)) = browserify"
  by (simp add: GulpWatchify_def options_or_empty_def Let_def no_options_def split: prod.splits)

theorem bundler_selected_by_raw_watch_witness:
  "opt_Bundler (no_options\<lparr>opt_watch := JNum 1\<rparr>) = None
   \<and> p_bundler (fst (GulpWatchify part_000 (Some (no_options\<lparr>opt_watch := JNum 1\<rparr>)) []))
       = watchify
   \<and> watch (fst (GulpWatchify part_000 None [])) = True
   \<and> p_bundler (fst (GulpWatchify part_000 None [])) = browserify"
  using bundler_selected_by_raw_watch [of "no_options\<lparr>opt_watch := JNum 1\<rparr>" part_000 "[]"]
  by (simp add: no_options_def)

section \<open>The transform of the GulpWatchify stream\<close>

text \<open>
  C10: a chunk that is falsy, or whose path is missing or falsy, is answered by the
  callback with the plugin error 'Expected a source file with a path'; the world is
  otherwise as before: no bundler is made or registered, nothing is pushed. This holds
  in all three revisions.
\<close>

theorem rejected_write_only_calls_back:
  assumes "\<not> truthy v \<or> \<not> truthy (get_prop (store w) v ''path'')"
  shows "step rv (Transform v) w =
           w\<lparr>effects := effects w @
                [(now w, Done (MainTransform v)
                           (Some (PluginError ''gulp-watchify''
                                    (JStr ''Expected a source file with a path''))))]\<rparr>"
  using assms by (auto simp add: step_def GulpWatchify_transform_def eff_def)

theorem rejected_write_only_calls_back_witness:
  "\<not> truthy JNull
   \<and> bundlers (step part_000 (Transform JNull) (init part_000 None example_store)) = []
   \<and> effects (step part_000 (Transform JNull) (init part_000 None example_store)) =
       [(0, Done (MainTransform JNull)
              (Some (PluginError ''gulp-watchify''
                       (JStr ''Expected a source file with a path''))))]"
proof -
  have g: "\<not> truthy JNull"
    by simp
  then have h: "\<not> truthy JNull
      \<or> \<not> truthy (get_prop (store (init part_000 None example_store)) JNull ''path'')"
    by simp
  have i: "bundlers (init part_000 None example_store) = []"
          "effects (init part_000 None example_store) = []"
          "now (init part_000 None example_store) = 0"
    by (simp_all add: init_def split: prod.splits)
  show ?thesis
    using g i by (simp add: rejected_write_only_calls_back [OF h])
qed

text \<open>
  C1: for a chunk with a path the stream makes a bundler for it and calls its bundle
  operation; when the bundler calls back without an error, the stream pushes one new
  file whose contents are a buffer of the source returned and whose base, cwd and path
  are those of the entry file, and then calls the transform callback without an error.
  This holds in all three revisions.
\<close>

theorem entry_file_is_bundled_and_pushed:
  assumes "truthy v" and "truthy (get_prop (store w) v ''path'')"
  shows "(\<exists>opts. bundlers (step rv (Transform v) w) =
            bundlers w @ [\<lparr> b_ctor = p_bundler (gw w), b_opts = opts, b_added = [v],
                             b_transforms = p_transforms (gw w), b_srcFile = v \<rparr>])
       \<and> pending (step rv (Transform v) w) =
           pending w @ [(length (bundlers w), MainTransform v)]
       \<and> (\<forall>w' i b err source.
            i < length (pending w') \<and> pending w' ! i = (b, MainTransform v) \<and> \<not> truthy err \<longrightarrow>
            effects (step rv (BundleDone i err source) w') =
              effects w' @
              [(now w', Push \<lparr> contents = Buffer source,
                               base = get_prop (store w') v ''base'',
                               cwd = get_prop (store w') v ''cwd'',
                               path = get_prop (store w') v ''path'' \<rparr>)] @
              (if verbose (gw w')
               then [(now w', Log (LogBundled (get_prop (store w') v ''path'')))]
               else []) @
              [(now w', Done (MainTransform v) None)])"
  using assms
  by (auto simp add: step_def GulpWatchify_transform_def eff_def Let_def
        firstBundleCallback_def createBundleFile_def)

theorem entry_file_is_bundled_and_pushed_witness:
  "truthy (JRef 0)
   \<and> truthy (get_prop (store (init part_000 None example_store)) (JRef 0) ''path'')
   \<and> pending (step part_000 (Transform (JRef 0)) (init part_000 None example_store)) =
       [(0, MainTransform (JRef 0))]
   \<and> effects (step part_000 (BundleDone 0 JNull ''bundle'')
                (step part_000 (Transform (JRef 0)) (init part_000 None example_store))) =
       [(0, Log (LogBundling (JStr ''a.js''))),
        (0, Push \<lparr> contents = Buffer ''bundle'', base = JStr ''/b'', cwd = JStr ''/c'',
                   path = JStr ''a.js'' \<rparr>),
        (0, Log (LogBundled (JStr ''a.js''))),
        (0, Done (MainTransform (JRef 0)) None)]"
proof -
  let ?w = "init part_000 None example_store"
  let ?w' = "step part_000 (Transform (JRef 0)) ?w"
  have h1: "truthy (JRef 0)" by simp
  have h2: "truthy (get_prop (store ?w) (JRef 0) ''path'')" by code_simp
  note t = entry_file_is_bundled_and_pushed [OF h1 h2, of part_000]
  have p0: "pending ?w = []" "bundlers ?w = []" by code_simp+
  from t p0 have p: "pending ?w' = [(0, MainTransform (JRef 0))]" by simp
  have e: "effects ?w' = [(0, Log (LogBundling (JStr ''a.js'')))]" "now ?w' = 0"
          "verbose (gw ?w')"
    by code_simp+
  from t p have "effects (step part_000 (BundleDone 0 JNull ''bundle'') ?w') =
      effects ?w' @
      [(now ?w', Push \<lparr> contents = Buffer ''bundle'',
                        base = get_prop (store ?w') (JRef 0) ''base'',
                        cwd = get_prop (store ?w') (JRef 0) ''cwd'',
                        path = get_prop (store ?w') (JRef 0) ''path'' \<rparr>)] @
      (if verbose (gw ?w')
       then [(now ?w', Log (LogBundled (get_prop (store ?w') (JRef 0) ''path'')))]
       else []) @
      [(now ?w', Done (MainTransform (JRef 0)) None)]"
    by simp
  moreover have "get_prop (store ?w') (JRef 0) ''base'' = JStr ''/b''"
                "get_prop (store ?w') (JRef 0) ''cwd'' = JStr ''/c''"
                "get_prop (store ?w') (JRef 0) ''path'' = JStr ''a.js''"
    by code_simp+
  ultimately show ?thesis using h1 h2 p e by simp
qed

section \<open>What each handler changes\<close>

text \<open>
  For every handler: the parts of the world it leaves alone, and what it adds to the
  updates, the rebundles and the writes an observer sees.
\<close>

lemma projections_append [simp]:
  "updates_of (es @ es') = updates_of es @ updates_of es'"
  "rebundles_of (es @ es') = rebundles_of es @ rebundles_of es'"
  "writes_to s (es @ es') = writes_to s es @ writes_to s es'"
  by (simp_all add: updates_of_def rebundles_of_def writes_to_def)

lemma projections_Nil [simp]:
  "updates_of [] = []" "rebundles_of [] = []" "writes_to s [] = []"
  by (simp_all add: updates_of_def rebundles_of_def writes_to_def)

lemma projections_Cons [simp]:
  "updates_of ((t, e) # es) =
     (case e of Emit (Update f b) \<Rightarrow> [(t, f)] | _ \<Rightarrow> []) @ updates_of es"
  "rebundles_of ((t, e) # es) =
     (case e of Emit (Rebundle r) \<Rightarrow> [r] | _ \<Rightarrow> []) @ rebundles_of es"
  "writes_to s ((t, e) # es) =
     (case e of RWrite s' f \<Rightarrow> (if s' = s then [f] else []) | _ \<Rightarrow> []) @ writes_to s es"
  by (simp_all add: updates_of_def rebundles_of_def writes_to_def)

lemma eff_simps [simp]:
  "store (eff e w) = store w" "gw (eff e w) = gw w" "streams (eff e w) = streams w"
  "bundlers (eff e w) = bundlers w" "pending (eff e w) = pending w"
  "timers (eff e w) = timers w" "next_timer (eff e w) = next_timer w"
  "now (eff e w) = now w" "effects (eff e w) = effects w @ [(now w, e)]"
  by (simp_all add: eff_def)

lemma upd_stream_simps [simp]:
  "store (upd_stream s f w) = store w" "gw (upd_stream s f w) = gw w"
  "streams (upd_stream s f w) = (streams w)[s := f (streams w ! s)]"
  "bundlers (upd_stream s f w) = bundlers w" "pending (upd_stream s f w) = pending w"
  "timers (upd_stream s f w) = timers w" "next_timer (upd_stream s f w) = next_timer w"
  "now (upd_stream s f w) = now w" "effects (upd_stream s f w) = effects w"
  by (simp_all add: upd_stream_def)

lemma registerAsync_simps [simp]:
  "store (registerAsync s w) = store w" "gw (registerAsync s w) = gw w"
  "length (streams (registerAsync s w)) = length (streams w)"
  "bundlers (registerAsync s w) = bundlers w" "pending (registerAsync s w) = pending w"
  "timers (registerAsync s w) = timers w" "next_timer (registerAsync s w) = next_timer w"
  "now (registerAsync s w) = now w" "effects (registerAsync s w) = effects w"
  by (simp_all add: registerAsync_def)

lemma finishIfResolved_simps [simp]:
  "store (finishIfResolved s w) = store w" "gw (finishIfResolved s w) = gw w"
  "length (streams (finishIfResolved s w)) = length (streams w)"
  "bundlers (finishIfResolved s w) = bundlers w" "pending (finishIfResolved s w) = pending w"
  "timers (finishIfResolved s w) = timers w" "next_timer (finishIfResolved s w) = next_timer w"
  "now (finishIfResolved s w) = now w"
  "updates_of (effects (finishIfResolved s w)) = updates_of (effects w)"
  "rebundles_of (effects (finishIfResolved s w)) = rebundles_of (effects w)"
  "writes_to s' (effects (finishIfResolved s w)) = writes_to s' (effects w)"
  by (simp_all add: finishIfResolved_def Let_def)

lemma ReBundle_transform_simps [simp]:
  "store (ReBundle_transform rv s f w) = store w" "gw (ReBundle_transform rv s f w) = gw w"
  "length (streams (ReBundle_transform rv s f w)) = length (streams w)"
  "bundlers (ReBundle_transform rv s f w) = bundlers w"
  "timers (ReBundle_transform rv s f w) = timers w"
  "next_timer (ReBundle_transform rv s f w) = next_timer w"
  "now (ReBundle_transform rv s f w) = now w"
  "updates_of (effects (ReBundle_transform rv s f w)) = updates_of (effects w)"
  "rebundles_of (effects (ReBundle_transform rv s f w)) = rebundles_of (effects w)"
  "writes_to s' (effects (ReBundle_transform rv s f w)) = writes_to s' (effects w)"
  by (simp_all add: ReBundle_transform_def Let_def)

lemma stream_write_simps [simp]:
  "store (stream_write rv s f w) = store w" "gw (stream_write rv s f w) = gw w"
  "length (streams (stream_write rv s f w)) = length (streams w)"
  "bundlers (stream_write rv s f w) = bundlers w"
  "timers (stream_write rv s f w) = timers w"
  "next_timer (stream_write rv s f w) = next_timer w"
  "now (stream_write rv s f w) = now w"
  "updates_of (effects (stream_write rv s f w)) = updates_of (effects w)"
  "rebundles_of (effects (stream_write rv s f w)) = rebundles_of (effects w)"
  "writes_to s' (effects (stream_write rv s f w)) = writes_to s' (effects w) @ (if s' = s then [f] else [])"
  by (simp_all add: stream_write_def Let_def)

lemma stream_done_simps [simp]:
  "store (stream_done rv s f e w) = store w" "gw (stream_done rv s f e w) = gw w"
  "length (streams (stream_done rv s f e w)) = length (streams w)"
  "bundlers (stream_done rv s f e w) = bundlers w"
  "timers (stream_done rv s f e w) = timers w"
  "next_timer (stream_done rv s f e w) = next_timer w"
  "now (stream_done rv s f e w) = now w"
  "updates_of (effects (stream_done rv s f e w)) = updates_of (effects w)"
  "rebundles_of (effects (stream_done rv s f e w)) = rebundles_of (effects w)"
  "writes_to s' (effects (stream_done rv s f e w)) = writes_to s' (effects w)"
  by (simp_all add: stream_done_def Let_def
        split: option.splits list.splits)

lemma ReBundle_bundled_simps [simp]:
  "store (ReBundle_bundled rv s f err src w) = store w"
  "gw (ReBundle_bundled rv s f err src w) = gw w"
  "length (streams (ReBundle_bundled rv s f err src w)) = length (streams w)"
  "bundlers (ReBundle_bundled rv s f err src w) = bundlers w"
  "timers (ReBundle_bundled rv s f err src w) = timers w"
  "next_timer (ReBundle_bundled rv s f err src w) = next_timer w"
  "now (ReBundle_bundled rv s f err src w) = now w"
  "updates_of (effects (ReBundle_bundled rv s f err src w)) = updates_of (effects w)"
  "rebundles_of (effects (ReBundle_bundled rv s f err src w)) = rebundles_of (effects w)"
  "writes_to s' (effects (ReBundle_bundled rv s f err src w)) = writes_to s' (effects w)"
  by (simp_all add: ReBundle_bundled_def handleError_def Let_def)

lemma firstBundleCallback_simps [simp]:
  "store (firstBundleCallback rv f err src w) = store w"
  "gw (firstBundleCallback rv f err src w) = gw w"
  "streams (firstBundleCallback rv f err src w) = streams w"
  "bundlers (firstBundleCallback rv f err src w) = bundlers w"
  "pending (firstBundleCallback rv f err src w) = pending w"
  "timers (firstBundleCallback rv f err src w) = timers w"
  "next_timer (firstBundleCallback rv f err src w) = next_timer w"
  "now (firstBundleCallback rv f err src w) = now w"
  "updates_of (effects (firstBundleCallback rv f err src w)) = updates_of (effects w)"
  "rebundles_of (effects (firstBundleCallback rv f err src w)) = rebundles_of (effects w)"
  "writes_to s' (effects (firstBundleCallback rv f err src w)) = writes_to s' (effects w)"
  by (simp_all add: firstBundleCallback_def handleError_def Let_def)

lemma GulpWatchify_transform_simps [simp]:
  "gw (GulpWatchify_transform rv v w) = gw w"
  "streams (GulpWatchify_transform rv v w) = streams w"
  "timers (GulpWatchify_transform rv v w) = timers w"
  "next_timer (GulpWatchify_transform rv v w) = next_timer w"
  "now (GulpWatchify_transform rv v w) = now w"
  "length (store (GulpWatchify_transform rv v w)) = length (store w)"
  "updates_of (effects (GulpWatchify_transform rv v w)) = updates_of (effects w)"
  "rebundles_of (effects (GulpWatchify_transform rv v w)) = rebundles_of (effects w)"
  "writes_to s' (effects (GulpWatchify_transform rv v w)) = writes_to s' (effects w)"
  by (simp_all add: GulpWatchify_transform_def Let_def set_prop_def)

lemma clearTimeout_simps [simp]:
  "store (clearTimeout t w) = store w" "gw (clearTimeout t w) = gw w"
  "streams (clearTimeout t w) = streams w" "bundlers (clearTimeout t w) = bundlers w"
  "pending (clearTimeout t w) = pending w" "next_timer (clearTimeout t w) = next_timer w"
  "now (clearTimeout t w) = now w" "effects (clearTimeout t w) = effects w"
  by (simp_all add: clearTimeout_def split: option.splits)

lemma timeout_callback_simps [simp]:
  "store (timeout_callback rv s w) = store w"
  "gw (timeout_callback rv s w) = (gw w)\<lparr>p_rebundleStream := None\<rparr>"
  "length (streams (timeout_callback rv s w)) = length (streams w)"
  "bundlers (timeout_callback rv s w) = bundlers w"
  "pending (timeout_callback rv s w) = pending w"
  "timers (timeout_callback rv s w) = timers w"
  "next_timer (timeout_callback rv s w) = next_timer w"
  "now (timeout_callback rv s w) = now w"
  "updates_of (effects (timeout_callback rv s w)) = updates_of (effects w)"
  "rebundles_of (effects (timeout_callback rv s w)) = rebundles_of (effects w)"
  "writes_to s' (effects (timeout_callback rv s w)) = writes_to s' (effects w)"
  by (simp_all add: timeout_callback_def Let_def)

lemma rebundle_delay_simps [simp]:
  "rebundle_delay rv (g\<lparr>p_rebundleStream := x\<rparr>) = rebundle_delay rv g"
  "rebundle_delay rv (g\<lparr>p_rebundleTimeout := y\<rparr>) = rebundle_delay rv g"
  by (simp_all add: rebundle_delay_def)

lemma rebundle_delay_pos: "0 < rebundle_delay rv g"
  by (simp add: rebundle_delay_def timeout_ms_def split: option.splits)

lemma handleUpdate_off: "\<not> truthy (p_rebundle (gw w)) \<Longrightarrow> handleUpdate rv f b w = w"
  by (simp add: handleUpdate_def)

lemma handleUpdate_simps:
  assumes "truthy (p_rebundle (gw w))"
  shows "store (handleUpdate rv f b w) = store w"
    and "bundlers (handleUpdate rv f b w) = bundlers w"
    and "now (handleUpdate rv f b w) = now w"
    and "next_timer (handleUpdate rv f b w) = Suc (next_timer w)"
    and "gw (handleUpdate rv f b w) =
           (gw w)\<lparr>p_rebundleStream := Some (current_stream w),
                   p_rebundleTimeout := Some (next_timer w)\<rparr>"
    and "timers (handleUpdate rv f b w) =
           filter (\<lambda>(j, dl, s). Some j \<noteq> p_rebundleTimeout (gw w)) (timers w) @
           [(next_timer w, now w + rebundle_delay rv (gw w), current_stream w)]"
    and "length (streams (handleUpdate rv f b w)) =
           (case p_rebundleStream (gw w) of Some s \<Rightarrow> length (streams w)
            | None \<Rightarrow> Suc (length (streams w)))"
    and "updates_of (effects (handleUpdate rv f b w)) = updates_of (effects w)"
    and "rebundles_of (effects (handleUpdate rv f b w)) =
           rebundles_of (effects w) @
           (case p_rebundleStream (gw w) of Some s \<Rightarrow> [] | None \<Rightarrow> [length (streams w)])"
    and "writes_to s' (effects (handleUpdate rv f b w)) =
           writes_to s' (effects w) @ (if s' = current_stream w then [f] else [])"
  using assms
  by (auto simp add: handleUpdate_def Let_def current_stream_def clearTimeout_def
        split: option.splits prod.splits)

lemma fire_simps [simp]:
  "store (fire rv w due) = store w"
  "bundlers (fire rv w due) = bundlers w"
  "pending (fire rv w due) = pending w"
  "timers (fire rv w due) = timers w"
  "next_timer (fire rv w due) = next_timer w"
  "length (streams (fire rv w due)) = length (streams w)"
  "updates_of (effects (fire rv w due)) = updates_of (effects w)"
  "rebundles_of (effects (fire rv w due)) = rebundles_of (effects w)"
  "writes_to s' (effects (fire rv w due)) = writes_to s' (effects w)"
  "gw (fire rv w due) = (if due = [] then gw w else (gw w)\<lparr>p_rebundleStream := None\<rparr>)"
  by (induction due arbitrary: w; simp add: fire_def split: prod.splits)+

lemma elapse_simps [simp]:
  "store (elapse rv d w) = store w"
  "bundlers (elapse rv d w) = bundlers w"
  "pending (elapse rv d w) = pending w"
  "timers (elapse rv d w) = filter (\<lambda>(i, dl, s). \<not> dl \<le> now w + d) (timers w)"
  "next_timer (elapse rv d w) = next_timer w"
  "now (elapse rv d w) = now w + d"
  "length (streams (elapse rv d w)) = length (streams w)"
  "updates_of (effects (elapse rv d w)) = updates_of (effects w)"
  "rebundles_of (effects (elapse rv d w)) = rebundles_of (effects w)"
  "writes_to s' (effects (elapse rv d w)) = writes_to s' (effects w)"
  "gw (elapse rv d w) =
     (if filter (\<lambda>(i, dl, s). dl \<le> now w + d) (timers w) = [] then gw w
      else (gw w)\<lparr>p_rebundleStream := None\<rparr>)"
  by (simp_all add: elapse_def Let_def)

lemma run_simps [simp]:
  "run rv [] w = w"
  "run rv (evs @ [e]) w = step rv e (run rv evs w)"
  by (simp_all add: run_def)

section \<open>One timeout, and one stream for each burst of updates\<close>

lemma one_timer_alt:
  "one_timer w =
     (timers w = [] \<or> (\<exists>t dl s. timers w = [(t, dl, s)] \<and> p_rebundleTimeout (gw w) = Some t))"
  by (auto simp add: one_timer_def split: list.splits)

lemma step_other:
  assumes "\<forall>b. e \<noteq> UpdateEv b" and "\<forall>d. e \<noteq> Elapse d"
  shows "timers (step rv e w) = timers w"
    and "gw (step rv e w) = gw w"
    and "now (step rv e w) = now w"
    and "next_timer (step rv e w) = next_timer w"
    and "length (streams (step rv e w)) = length (streams w)"
    and "updates_of (effects (step rv e w)) = updates_of (effects w)"
    and "rebundles_of (effects (step rv e w)) = rebundles_of (effects w)"
    and "writes_to s' (effects (step rv e w)) = writes_to s' (effects w)"
  using assms
  by (cases e; simp add: step_def Let_def split: transform_call.splits)+

lemma step_UpdateEv:
  "step rv (UpdateEv b) w =
     (if b < length (bundlers w)
      then handleUpdate rv (b_srcFile (bundlers w ! b)) b
             (eff (Emit (Update (b_srcFile (bundlers w ! b)) b)) w)
      else w)"
  by (simp add: step_def Let_def)

lemma step_Elapse: "step rv (Elapse d) w = elapse rv d w"
  by (simp add: step_def)

lemma one_timer_step: "one_timer w \<Longrightarrow> one_timer (step rv e w)"
proof -
  assume inv: "one_timer w"
  consider (upd) b where "e = UpdateEv b" | (el) d where "e = Elapse d"
    | (other) "\<forall>b. e \<noteq> UpdateEv b" "\<forall>d. e \<noteq> Elapse d"
    by blast
  then show ?thesis
  proof cases
    case upd
    show ?thesis
    proof (cases "b < length (bundlers w) \<and> truthy (p_rebundle (gw w))")
      case True
      then show ?thesis using inv upd
        by (auto simp add: step_UpdateEv handleUpdate_simps one_timer_alt)
    next
      case False
      then show ?thesis using inv upd
        by (auto simp add: step_UpdateEv handleUpdate_off one_timer_alt)
    qed
  next
    case el
    then show ?thesis using inv
      by (auto simp add: step_Elapse one_timer_alt split: if_splits)
  next
    case other
    then show ?thesis using inv
      by (simp add: one_timer_alt step_other)
  qed
qed

lemma one_timer_init: "one_timer (init rv oa h)"
  by (simp add: init_def one_timer_def split: prod.splits)

lemma one_timer_run: "one_timer (run rv evs (init rv oa h))"
  by (induction evs rule: rev_induct) (simp_all add: one_timer_init one_timer_step)

lemma bursts_acc_not_Nil [simp]: "bursts_acc D l cur ups \<noteq> []"
  by (induction ups arbitrary: l cur) (auto split: if_splits)

lemma bursts_acc_snoc:
  "bursts_acc D l cur (ups @ [(t, x)]) =
     (if t < (if ups = [] then l else fst (last ups)) + D
      then butlast (bursts_acc D l cur ups) @ [last (bursts_acc D l cur ups) @ [x]]
      else bursts_acc D l cur ups @ [[x]])"
  by (induction ups arbitrary: l cur) (auto simp add: butlast_append)

lemma bursts_snoc:
  "bursts D (ups @ [(t, x)]) =
     (if ups \<noteq> [] \<and> t < fst (last ups) + D
      then butlast (bursts D ups) @ [last (bursts D ups) @ [x]]
      else bursts D ups @ [[x]])"
proof (cases ups)
  case Nil
  then show ?thesis by simp
next
  case (Cons u us)
  obtain t0 x0 where u: "u = (t0, x0)" by (cases u)
  show ?thesis
  proof (cases "us = []")
    case True
    then show ?thesis using Cons u by simp
  next
    case False
    then show ?thesis using Cons u by (simp add: bursts_acc_snoc)
  qed
qed

lemma bursts_Nil_iff [simp]: "bursts D ups = [] \<longleftrightarrow> ups = []"
  by (cases ups) auto

lemma burst_inv_alt:
  "burst_inv rv D w \<longleftrightarrow>
     truthy (p_rebundle (gw w)) \<and> rebundle_delay rv (gw w) = D
     \<and> length (bursts D (updates_of (effects w))) = length (streams w)
     \<and> (\<forall>s<length (streams w). writes_to s (effects w) = bursts D (updates_of (effects w)) ! s)
     \<and> (\<forall>s. length (streams w) \<le> s \<longrightarrow> writes_to s (effects w) = [])
     \<and> rebundles_of (effects w) = [0..<length (streams w)]
     \<and> ((timers w = [] \<and> p_rebundleStream (gw w) = None
          \<and> (updates_of (effects w) = [] \<or> fst (last (updates_of (effects w))) + D \<le> now w))
        \<or> (\<exists>t s. timers w = [(t, fst (last (updates_of (effects w))) + D, s)]
              \<and> p_rebundleStream (gw w) = Some s \<and> p_rebundleTimeout (gw w) = Some t
              \<and> updates_of (effects w) \<noteq> [] \<and> Suc s = length (streams w)
              \<and> now w < fst (last (updates_of (effects w))) + D))"
  by (auto simp add: burst_inv_def Let_def split: list.splits)

lemma burst_inv_other:
  assumes "burst_inv rv D w" "\<forall>b. e \<noteq> UpdateEv b" "\<forall>d. e \<noteq> Elapse d"
  shows "burst_inv rv D (step rv e w)"
  using assms by (simp add: burst_inv_alt step_other)

lemma burst_inv_elapse:
  assumes "burst_inv rv D w"
  shows "burst_inv rv D (elapse rv d w)"
  using assms by (auto simp add: burst_inv_alt split: if_splits)

lemma burst_inv_update:
  assumes inv: "burst_inv rv D w"
  shows "burst_inv rv D (handleUpdate rv f b (eff (Emit (Update f b)) w))"
proof -
  let ?w1 = "eff (Emit (Update f b)) w"
  let ?w' = "handleUpdate rv f b ?w1"
  let ?ups = "updates_of (effects w)"
  let ?B = "bursts D ?ups"
  let ?n = "length (streams w)"
  from inv have on: "truthy (p_rebundle (gw ?w1))" and D: "rebundle_delay rv (gw w) = D"
    and len: "length ?B = ?n"
    and wr: "\<And>s. s < ?n \<Longrightarrow> writes_to s (effects w) = ?B ! s"
    and wr0: "\<And>s. ?n \<le> s \<Longrightarrow> writes_to s (effects w) = []"
    and rb: "rebundles_of (effects w) = [0..<?n]"
    by (simp_all add: burst_inv_alt)
  have Dpos: "0 < D" using D rebundle_delay_pos [of rv "gw w"] by simp
  note hu = handleUpdate_simps [OF on]
  have ups': "updates_of (effects ?w') = ?ups @ [(now w, f)]"
    by (simp add: hu)
  from inv consider
      (idle) "timers w = []" "p_rebundleStream (gw w) = None"
             "?ups = [] \<or> fst (last ?ups) + D \<le> now w"
    | (armed) t s where "timers w = [(t, fst (last ?ups) + D, s)]"
             "p_rebundleStream (gw w) = Some s" "p_rebundleTimeout (gw w) = Some t"
             "?ups \<noteq> []" "Suc s = ?n" "now w < fst (last ?ups) + D"
    by (auto simp add: burst_inv_alt)
  then show ?thesis
  proof cases
    case idle
    have B': "bursts D (?ups @ [(now w, f)]) = ?B @ [[f]]"
      using idle(3) by (auto simp add: bursts_snoc)
    show ?thesis
      using idle D Dpos len wr wr0 rb on
      by (auto simp add: burst_inv_alt hu B' current_stream_def nth_append)
  next
    case armed
    have B': "bursts D (?ups @ [(now w, f)]) = butlast ?B @ [last ?B @ [f]]"
      using armed(4,6) by (simp add: bursts_snoc)
    have Bne: "?B \<noteq> []" using armed(4) by simp
    have "length ?B - 1 = s" using armed(5) len by simp
    then have lastB: "last ?B = ?B ! s" using Bne by (simp add: last_conv_nth)
    show ?thesis
      using armed D Dpos len wr wr0 rb on Bne lastB
      by (auto simp add: burst_inv_alt hu B' current_stream_def nth_append nth_butlast)
  qed
qed

lemma burst_inv_step:
  assumes "burst_inv rv D w"
  shows "burst_inv rv D (step rv e w)"
proof -
  consider (upd) b where "e = UpdateEv b" | (el) d where "e = Elapse d"
    | (other) "\<forall>b. e \<noteq> UpdateEv b" "\<forall>d. e \<noteq> Elapse d"
    by blast
  then show ?thesis
  proof cases
    case upd
    then show ?thesis using assms by (simp add: step_UpdateEv burst_inv_update)
  next
    case el
    then show ?thesis using assms by (simp add: step_Elapse burst_inv_elapse)
  next
    case other
    then show ?thesis by (rule burst_inv_other [OF assms])
  qed
qed

lemma init_simps [simp]:
  "streams (init rv oa h) = []" "bundlers (init rv oa h) = []" "pending (init rv oa h) = []"
  "timers (init rv oa h) = []" "next_timer (init rv oa h) = 0" "now (init rv oa h) = 0"
  "effects (init rv oa h) = []"
  "p_rebundleStream (gw (init rv oa h)) = None"
  "p_rebundleTimeout (gw (init rv oa h)) = None"
  by (simp_all add: init_def GulpWatchify_def Let_def split: prod.splits)

lemma burst_inv_init:
  "truthy (p_rebundle (gw (init rv oa h))) \<Longrightarrow>
   burst_inv rv (rebundle_delay rv (gw (init rv oa h))) (init rv oa h)"
  by (simp add: burst_inv_alt)

lemma burst_inv_run:
  "truthy (p_rebundle (gw (init rv oa h))) \<Longrightarrow>
   burst_inv rv (rebundle_delay rv (gw (init rv oa h))) (run rv evs (init rv oa h))"
  by (induction evs rule: rev_induct) (simp_all add: burst_inv_init burst_inv_step)

text \<open>
  C3: with rebundling on and timeouts that run when they are due, the ReBundle streams
  are the bursts of the update events: the chunks written to the streams, stream by
  stream, are the entry files of the updates, burst by burst (an update less than the
  rebundle delay after the one before it is in the same burst, any other update starts
  a new one), and 'rebundle' was emitted once for each stream, in order. This holds in
  all three revisions.
\<close>

theorem one_stream_and_one_rebundle_per_burst:
  assumes "truthy (p_rebundle (gw (init rv oa h)))"
  shows "map (\<lambda>s. writes_to s (effects (run rv evs (init rv oa h))))
             [0..<length (streams (run rv evs (init rv oa h)))] =
           bursts (rebundle_delay rv (gw (init rv oa h)))
             (updates_of (effects (run rv evs (init rv oa h))))
       \<and> rebundles_of (effects (run rv evs (init rv oa h))) =
           [0..<length (streams (run rv evs (init rv oa h)))]"
proof -
  let ?w = "run rv evs (init rv oa h)"
  let ?B = "bursts (rebundle_delay rv (gw (init rv oa h))) (updates_of (effects ?w))"
  have inv: "burst_inv rv (rebundle_delay rv (gw (init rv oa h))) ?w"
    by (rule burst_inv_run [OF assms])
  then have len: "length ?B = length (streams ?w)"
    and wr: "\<And>s. s < length (streams ?w) \<Longrightarrow> writes_to s (effects ?w) = ?B ! s"
    and rb: "rebundles_of (effects ?w) = [0..<length (streams ?w)]"
    by (simp_all add: burst_inv_alt)
  have "map (\<lambda>s. writes_to s (effects ?w)) [0..<length (streams ?w)] = ?B"
    by (rule nth_equalityI) (simp_all add: len wr)
  with rb show ?thesis by simp
qed

theorem one_stream_and_one_rebundle_per_burst_witness:
  "truthy (p_rebundle (gw (init part_000 None example_store)))
   \<and> map (\<lambda>s. writes_to s (effects (run part_000 example_updates (init part_000 None example_store))))
         [0..<length (streams (run part_000 example_updates (init part_000 None example_store)))] =
       [[JRef 0, JRef 0], [JRef 0]]
   \<and> rebundles_of (effects (run part_000 example_updates (init part_000 None example_store))) =
       [0, 1]"
proof -
  let ?i = "init part_000 None example_store"
  let ?w = "run part_000 example_updates ?i"
  have h: "truthy (p_rebundle (gw ?i))" by code_simp
  have b: "bursts (rebundle_delay part_000 (gw ?i)) (updates_of (effects ?w)) =
             [[JRef 0, JRef 0], [JRef 0]]"
    by code_simp
  have n: "[0..<length (streams ?w)] = [0, 1]" by code_simp
  from one_stream_and_one_rebundle_per_burst [OF h, of example_updates] b n show ?thesis using h by simp
qed

text \<open>
  C6: at any time at most one timeout of the instance is pending; and each handling of
  an update event, with rebundling on, leaves exactly the timeout it has just set: the
  one set before was cleared. This holds in all three revisions.
\<close>

theorem at_most_one_pending_timeout:
  "length (timers (run rv evs (init rv oa h))) \<le> 1
   \<and> (\<forall>b. b < length (bundlers (run rv evs (init rv oa h)))
            \<and> truthy (p_rebundle (gw (run rv evs (init rv oa h)))) \<longrightarrow>
          (\<exists>dl s. timers (step rv (UpdateEv b) (run rv evs (init rv oa h))) =
                    [(next_timer (run rv evs (init rv oa h)), dl, s)]))"
  using one_timer_run [of rv evs oa h]
  by (auto simp add: one_timer_alt step_UpdateEv handleUpdate_simps)

theorem at_most_one_pending_timeout_witness:
  "length (timers (run part_000 example_updates (init part_000 None example_store))) \<le> 1
   \<and> 0 < length (bundlers (run part_000 example_updates (init part_000 None example_store)))
   \<and> truthy (p_rebundle (gw (run part_000 example_updates (init part_000 None example_store))))
   \<and> (\<exists>dl s. timers (step part_000 (UpdateEv 0)
                        (run part_000 example_updates (init part_000 None example_store))) =
               [(next_timer (run part_000 example_updates (init part_000 None example_store)),
                 dl, s)])"
proof -
  let ?w = "run part_000 example_updates (init part_000 None example_store)"
  have h1: "0 < length (bundlers ?w)" by code_simp
  have h2: "truthy (p_rebundle (gw ?w))" by code_simp
  from at_most_one_pending_timeout [of part_000 example_updates None example_store] h1 h2
  show ?thesis by blast
qed

section \<open>The caches and the watcher table\<close>

lemma deref_set_prop: "r \<noteq> r' \<Longrightarrow> deref (set_prop h r' k v) r = deref h r"
  by (simp add: deref_def set_prop_def)

lemma step_BundleDone:
  "step rv (BundleDone i err source) w =
     (if i < length (pending w)
      then (case snd (pending w ! i) of
              MainTransform f \<Rightarrow>
                firstBundleCallback rv f err source
                  (w\<lparr>pending := take i (pending w) @ drop (Suc i) (pending w)\<rparr>)
            | ReTransform s f \<Rightarrow>
                ReBundle_bundled rv s f err source
                  (w\<lparr>pending := take i (pending w) @ drop (Suc i) (pending w)\<rparr>))
      else w)"
  by (simp add: step_def Let_def)

lemma store_step_frame:
  assumes "\<forall>r' ob. e \<noteq> External r' ob" and "r \<noteq> p_bundlers (gw w)"
  shows "deref (store (step rv e w)) r = deref (store w) r"
proof (cases e)
  case (Transform v)
  then show ?thesis using assms
    by (simp add: step_def GulpWatchify_transform_def Let_def deref_set_prop)
next
  case (BundleDone i err source)
  then show ?thesis by (simp add: step_BundleDone split: transform_call.splits)
next
  case (UpdateEv b)
  then show ?thesis
    by (cases "truthy (p_rebundle (gw w))")
       (simp_all add: step_UpdateEv handleUpdate_simps handleUpdate_off)
next
  case (WatchEv b v)
  then show ?thesis by (simp add: step_def)
next
  case (Elapse d)
  then show ?thesis by (simp add: step_def)
next
  case (External r' ob)
  then show ?thesis using assms by simp
qed

lemma gw_step:
  "\<exists>x y. gw (step rv e w) = (gw w)\<lparr>p_rebundleStream := x, p_rebundleTimeout := y\<rparr>"
proof -
  have triv: "\<exists>x y. gw w = (gw w)\<lparr>p_rebundleStream := x, p_rebundleTimeout := y\<rparr>"
    by (rule exI [of _ "p_rebundleStream (gw w)"], rule exI [of _ "p_rebundleTimeout (gw w)"]) simp
  consider (upd) b where "e = UpdateEv b" | (el) d where "e = Elapse d"
    | (other) "\<forall>b. e \<noteq> UpdateEv b" "\<forall>d. e \<noteq> Elapse d"
    by blast
  then show ?thesis
  proof cases
    case upd
    show ?thesis
    proof (cases "b < length (bundlers w) \<and> truthy (p_rebundle (gw w))")
      case True
      then show ?thesis using upd by (simp add: step_UpdateEv handleUpdate_simps) blast
    next
      case False
      then show ?thesis using upd triv by (auto simp add: step_UpdateEv handleUpdate_off)
    qed
  next
    case el
    show ?thesis
    proof (cases "filter (\<lambda>(i, dl, s). dl \<le> now w + d) (timers w) = []")
      case True
      then show ?thesis using el triv by (simp add: step_Elapse)
    next
      case False
      then show ?thesis using el
        by (simp add: step_Elapse)
           (rule exI [of _ None], rule exI [of _ "p_rebundleTimeout (gw w)"], simp)
    qed
  next
    case other
    then show ?thesis using triv by (simp add: step_other)
  qed
qed

lemma gw_step_fields:
  "p_depsCache (gw (step rv e w)) = p_depsCache (gw w)"
  "p_packageCache (gw (step rv e w)) = p_packageCache (gw w)"
  "p_watchers (gw (step rv e w)) = p_watchers (gw w)"
  "p_bundlers (gw (step rv e w)) = p_bundlers (gw w)"
  "p_rebundle (gw (step rv e w)) = p_rebundle (gw w)"
  "p_skipUpdateError (gw (step rv e w)) = p_skipUpdateError (gw w)"
  "verbose (gw (step rv e w)) = verbose (gw w)"
  using gw_step [of rv e w] by auto

lemma gw_run_fields:
  "p_depsCache (gw (run rv evs w)) = p_depsCache (gw w)"
  "p_packageCache (gw (run rv evs w)) = p_packageCache (gw w)"
  "p_watchers (gw (run rv evs w)) = p_watchers (gw w)"
  "p_bundlers (gw (run rv evs w)) = p_bundlers (gw w)"
  "p_rebundle (gw (run rv evs w)) = p_rebundle (gw w)"
  "p_skipUpdateError (gw (run rv evs w)) = p_skipUpdateError (gw w)"
  "verbose (gw (run rv evs w)) = verbose (gw w)"
  by (induction evs rule: rev_induct; simp add: gw_step_fields)+

lemma bundlers_step:
  assumes "b \<in> set (bundlers (step rv e w))"
  shows "b \<in> set (bundlers w) \<or> given_caches (gw w) b"
proof (cases e)
  case (Transform v)
  then show ?thesis using assms
    by (auto simp add: step_def GulpWatchify_transform_def Let_def given_caches_def
          update_conv' split: if_splits)
next
  case (BundleDone i err source)
  then show ?thesis using assms by (simp add: step_BundleDone split: transform_call.splits if_splits)
next
  case (UpdateEv u)
  then show ?thesis using assms
    by (cases "truthy (p_rebundle (gw w))")
       (simp_all add: step_UpdateEv handleUpdate_simps handleUpdate_off split: if_splits)
next
  case (WatchEv u v)
  then show ?thesis using assms by (simp add: step_def split: if_splits)
next
  case (Elapse d)
  then show ?thesis using assms by (simp add: step_def)
next
  case (External r' ob)
  then show ?thesis using assms by (simp add: step_def)
qed

lemma bundlers_run:
  "\<forall>b\<in>set (bundlers (run rv evs (init rv oa h))). given_caches (gw (init rv oa h)) b"
proof (induction evs rule: rev_induct)
  case Nil
  then show ?case by simp
next
  case (snoc e evs)
  show ?case
  proof
    fix b assume "b \<in> set (bundlers (run rv (evs @ [e]) (init rv oa h)))"
    then have "b \<in> set (bundlers (step rv e (run rv evs (init rv oa h))))" by simp
    from bundlers_step [OF this] snoc show "given_caches (gw (init rv oa h)) b"
      by (auto simp add: given_caches_def gw_run_fields)
  qed
qed

lemma init_caches:
  assumes "boolean_or_true (opt_primeCache (options_or_empty oa))"
      and "boolean_or_true (opt_shareWatchers (options_or_empty oa))"
      and "case opt_bundlers (options_or_empty oa) of Some r \<Rightarrow> r < length h | None \<Rightarrow> True"
  shows "\<exists>d p wt. p_depsCache (gw (init rv oa h)) = JRef d
           \<and> p_packageCache (gw (init rv oa h)) = JRef p
           \<and> p_watchers (gw (init rv oa h)) = JRef wt
           \<and> length h \<le> d \<and> d < p \<and> p < wt \<and> wt < length (store (init rv oa h))
           \<and> p_bundlers (gw (init rv oa h)) \<notin> {d, p, wt}"
  using assms
  by (auto simp add: init_def GulpWatchify_def Let_def new_object_if_def object_or_new_def
        alloc_def split: option.splits)

text \<open>
  C7: with \<^verbatim>\<open>primeCache\<close> and \<^verbatim>\<open>shareWatchers\<close> at their defaults (or true), the
  constructor makes three new objects, and after any sequence of events the instance
  still holds the same three references, every bundler made was given exactly these
  (the package cache under both of its names), and no step of the plugin changes any of
  the three objects: only code outside the plugin does. This holds in all three
  revisions.
\<close>

theorem caches_and_watchers_only_passed_on:
  assumes "boolean_or_true (opt_primeCache (options_or_empty oa))"
      and "boolean_or_true (opt_shareWatchers (options_or_empty oa))"
      and "case opt_bundlers (options_or_empty oa) of Some r \<Rightarrow> r < length h | None \<Rightarrow> True"
  shows "\<exists>d p wt. length h \<le> d \<and> d < p \<and> p < wt \<and> wt < length (store (init rv oa h))
           \<and> (\<forall>evs.
                 p_depsCache (gw (run rv evs (init rv oa h))) = JRef d
               \<and> p_packageCache (gw (run rv evs (init rv oa h))) = JRef p
               \<and> p_watchers (gw (run rv evs (init rv oa h))) = JRef wt
               \<and> (\<forall>b\<in>set (bundlers (run rv evs (init rv oa h))).
                     map_of (b_opts b) ''cache'' = Some (JRef d)
                   \<and> map_of (b_opts b) ''pkgCache'' = Some (JRef p)
                   \<and> map_of (b_opts b) ''packageCache'' = Some (JRef p)
                   \<and> map_of (b_opts b) ''watchers'' = Some (JRef wt))
               \<and> (\<forall>e r. r \<in> {d, p, wt} \<and> (\<forall>r' ob. e \<noteq> External r' ob) \<longrightarrow>
                     deref (store (step rv e (run rv evs (init rv oa h)))) r =
                     deref (store (run rv evs (init rv oa h))) r))"
proof -
  from init_caches [OF assms, of rv] obtain d p wt where
    i: "p_depsCache (gw (init rv oa h)) = JRef d" "p_packageCache (gw (init rv oa h)) = JRef p"
       "p_watchers (gw (init rv oa h)) = JRef wt"
       "length h \<le> d" "d < p" "p < wt" "wt < length (store (init rv oa h))"
       "p_bundlers (gw (init rv oa h)) \<notin> {d, p, wt}"
    by blast
  have "p_depsCache (gw (run rv evs (init rv oa h))) = JRef d
      \<and> p_packageCache (gw (run rv evs (init rv oa h))) = JRef p
      \<and> p_watchers (gw (run rv evs (init rv oa h))) = JRef wt
      \<and> (\<forall>b\<in>set (bundlers (run rv evs (init rv oa h))).
            map_of (b_opts b) ''cache'' = Some (JRef d)
          \<and> map_of (b_opts b) ''pkgCache'' = Some (JRef p)
          \<and> map_of (b_opts b) ''packageCache'' = Some (JRef p)
          \<and> map_of (b_opts b) ''watchers'' = Some (JRef wt))
      \<and> (\<forall>e r. r \<in> {d, p, wt} \<and> (\<forall>r' ob. e \<noteq> External r' ob) \<longrightarrow>
            deref (store (step rv e (run rv evs (init rv oa h)))) r =
            deref (store (run rv evs (init rv oa h))) r)" for evs
  proof -
    have b: "p_bundlers (gw (run rv evs (init rv oa h))) \<notin> {d, p, wt}"
      using i(8) by (simp add: gw_run_fields)
    have "deref (store (step rv e (run rv evs (init rv oa h)))) r =
          deref (store (run rv evs (init rv oa h))) r"
      if "r \<in> {d, p, wt}" "\<forall>r' ob. e \<noteq> External r' ob" for e r
      using that b by (intro store_step_frame) auto
    then show ?thesis
      using bundlers_run [of rv evs oa h] i(1-3)
      by (simp add: gw_run_fields given_caches_def)
  qed
  with i(4-7) show ?thesis by blast
qed

theorem caches_and_watchers_only_passed_on_witness:
  "boolean_or_true (opt_primeCache (options_or_empty None))
   \<and> boolean_or_true (opt_shareWatchers (options_or_empty None))
   \<and> opt_bundlers (options_or_empty None) = None
   \<and> map_of (b_opts (bundlers (run part_000 example_updates (init part_000 None example_store)) ! 0))
        ''cache'' = Some (JRef 2)
   \<and> deref (store (step part_000 (Transform (JRef 0))
                     (run part_000 example_updates (init part_000 None example_store)))) 2 =
       deref (store (run part_000 example_updates (init part_000 None example_store))) 2"
proof -
  let ?i = "init part_000 None example_store"
  let ?w = "run part_000 example_updates ?i"
  have h1: "boolean_or_true (opt_primeCache (options_or_empty None))" by code_simp
  have h2: "boolean_or_true (opt_shareWatchers (options_or_empty None))" by code_simp
  have n: "opt_bundlers (options_or_empty None) = None" by code_simp
  then have h3: "case opt_bundlers (options_or_empty None) of
                   Some r \<Rightarrow> r < length example_store | None \<Rightarrow> True"
    by simp
  from caches_and_watchers_only_passed_on [OF h1 h2 h3, of part_000] obtain d p wt where
    all: "\<forall>evs.
            p_depsCache (gw (run part_000 evs ?i)) = JRef d
          \<and> p_packageCache (gw (run part_000 evs ?i)) = JRef p
          \<and> p_watchers (gw (run part_000 evs ?i)) = JRef wt
          \<and> (\<forall>b\<in>set (bundlers (run part_000 evs ?i)).
                map_of (b_opts b) ''cache'' = Some (JRef d)
              \<and> map_of (b_opts b) ''pkgCache'' = Some (JRef p)
              \<and> map_of (b_opts b) ''packageCache'' = Some (JRef p)
              \<and> map_of (b_opts b) ''watchers'' = Some (JRef wt))
          \<and> (\<forall>e r. r \<in> {d, p, wt} \<and> (\<forall>r' ob. e \<noteq> External r' ob) \<longrightarrow>
                deref (store (step part_000 e (run part_000 evs ?i))) r =
                deref (store (run part_000 evs ?i)) r)"
    by (elim exE conjE)
  note at_start = spec [OF all, of "[]"]
  note at_end = spec [OF all, of example_updates]
  have "p_depsCache (gw (run part_000 [] ?i)) = JRef 2" by code_simp
  with at_start have d: "d = 2" by simp
  have "0 < length (bundlers ?w)" by code_simp
  then have m: "bundlers ?w ! 0 \<in> set (bundlers ?w)" by (rule nth_mem)
  from at_end have "\<forall>b\<in>set (bundlers ?w). map_of (b_opts b) ''cache'' = Some (JRef d)"
    by (elim conjE) simp
  with m d have 1: "map_of (b_opts (bundlers ?w ! 0)) ''cache'' = Some (JRef 2)"
    by blast
  from at_end have "\<forall>e r. r \<in> {d, p, wt} \<and> (\<forall>r' ob. e \<noteq> External r' ob) \<longrightarrow>
                deref (store (step part_000 e ?w)) r = deref (store ?w) r"
    by (elim conjE)
  from this [rule_format, of 2 "Transform (JRef 0)"] d
  have 2: "deref (store (step part_000 (Transform (JRef 0)) ?w)) 2 = deref (store ?w) 2"
    by simp
  from h1 h2 n 1 2 show ?thesis by simp
qed

section \<open>Errors of a rebundle\<close>

lemma config_field_updates [simp]:
  "config (r\<lparr>p_unresolvedAsyncs := x\<rparr>) = config r"
  "config (r\<lparr>buffered := y\<rparr>) = config r"
  "config (r\<lparr>transforming := z\<rparr>) = config r"
  by (simp_all add: config_def)

lemma config_nth_update [simp]:
  "config y = config (xs ! s) \<Longrightarrow> config (xs[s := y] ! s) = config (xs ! s)"
  by (cases "s < length xs") (simp_all add: list_update_beyond)

lemma map_config_update [simp]:
  assumes "config y = config (xs ! s)"
  shows "map config (xs[s := y]) = map config xs"
proof (rule nth_equalityI)
  show "length (map config (xs[s := y])) = length (map config xs)" by simp
next
  fix i assume "i < length (map config (xs[s := y]))"
  then have i: "i < length xs" by simp
  show "map config (xs[s := y]) ! i = map config xs ! i"
  proof (cases "i = s")
    case True
    then show ?thesis using i assms by simp
  next
    case False
    then show ?thesis using i by simp
  qed
qed

lemma config_frames [simp]:
  "map config (streams (registerAsync s w)) = map config (streams w)"
  "map config (streams (finishIfResolved s w)) = map config (streams w)"
  "map config (streams (ReBundle_transform rv s f w)) = map config (streams w)"
  "map config (streams (stream_write rv s f w)) = map config (streams w)"
  "map config (streams (stream_done rv s f e w)) = map config (streams w)"
  "map config (streams (ReBundle_bundled rv s f err src w)) = map config (streams w)"
  "map config (streams (timeout_callback rv s w)) = map config (streams w)"
  by (simp_all add: registerAsync_def finishIfResolved_def ReBundle_transform_def
        stream_write_def stream_done_def ReBundle_bundled_def timeout_callback_def
        handleError_def Let_def split: option.splits list.splits)

lemma config_fire [simp]: "map config (streams (fire rv w due)) = map config (streams w)"
  by (induction due arbitrary: w) (simp_all add: fire_def split: prod.splits)

lemma config_elapse [simp]: "map config (streams (elapse rv d w)) = map config (streams w)"
  by (simp add: elapse_def Let_def)

lemma config_handleUpdate:
  "truthy (p_rebundle (gw w)) \<Longrightarrow>
   map config (streams (handleUpdate rv f b w)) =
     map config (streams w) @
     (case p_rebundleStream (gw w) of
        Some s \<Rightarrow> []
      | None \<Rightarrow> [config (ReBundle rv b (JBool (verbose (gw w))) JUndefined
                            (p_skipUpdateError (gw w)))])"
  by (simp add: handleUpdate_def Let_def split: option.splits prod.splits)

lemma pending_frames:
  "x \<in> set (pending (ReBundle_transform rv s f w)) \<Longrightarrow>
     x \<in> set (pending w) \<or> (\<exists>b c. x = (b, ReTransform s c))"
  "x \<in> set (pending (stream_write rv s f w)) \<Longrightarrow>
     x \<in> set (pending w) \<or> (\<exists>b c. x = (b, ReTransform s c))"
  "x \<in> set (pending (stream_done rv s f e w)) \<Longrightarrow>
     x \<in> set (pending w) \<or> (\<exists>b c. x = (b, ReTransform s c))"
  "x \<in> set (pending (ReBundle_bundled rv s f err src w)) \<Longrightarrow>
     x \<in> set (pending w) \<or> (\<exists>b c. x = (b, ReTransform s c))"
  by (auto simp add: registerAsync_def finishIfResolved_def ReBundle_transform_def
        stream_write_def stream_done_def ReBundle_bundled_def handleError_def Let_def
        split: option.splits list.splits if_splits)

lemma pending_handleUpdate:
  "truthy (p_rebundle (gw w)) \<Longrightarrow> x \<in> set (pending (handleUpdate rv f b w)) \<Longrightarrow>
     x \<in> set (pending w) \<or> (\<exists>b c. x = (b, ReTransform (current_stream w) c))"
  by (cases rv; cases "p_rebundleStream (gw w)")
     (auto simp add: handleUpdate_def Let_def current_stream_def dest!: pending_frames(2))

lemma pending_GulpWatchify_transform:
  "x \<in> set (pending (GulpWatchify_transform rv v w)) \<Longrightarrow>
     x \<in> set (pending w) \<or> (\<exists>b. x = (b, MainTransform v))"
  by (auto simp add: GulpWatchify_transform_def Let_def split: if_splits)

lemma rebundle_error_forwarded:
  assumes "rv \<noteq> index_js" "i < length (pending w)" "pending w ! i = (b, ReTransform s f)"
    "truthy err" "\<not> truthy (p_skipUpdateError (streams w ! s))"
  shows "effects (step rv (BundleDone i err source) w) =
           effects w @ [(now w, Done (ReTransform s f) (Some (PluginError ''gulp-watchify'' err)))]"
  using assms
  by (simp add: step_BundleDone ReBundle_bundled_def stream_done_def Let_def)

lemma rebundle_error_skipped:
  assumes "rv \<noteq> index_js" "i < length (pending w)" "pending w ! i = (b, ReTransform s f)"
    "truthy err" "truthy (p_skipUpdateError (streams w ! s))"
  shows "\<exists>rest. effects (step rv (BundleDone i err source) w) =
           effects w @
           [(now w, Log (LogEncounteredError (Some (get_prop (store w) f ''path'')))),
            (now w, Log (LogValue err)),
            (now w, Done (ReTransform s f) None)] @ rest
         \<and> set rest \<subseteq> {(now w, RPush s None)} \<union> range (\<lambda>p. (now w, Log (LogUpdating p)))"
  using assms
  by (cases rv)
     (auto simp add: step_BundleDone ReBundle_bundled_def stream_done_def Let_def
        ReBundle_transform_def finishIfResolved_def registerAsync_def split: list.splits)

lemma rebundle_error_skipped_goes_on:
  assumes "rv \<noteq> index_js" "i < length (pending w)" "pending w ! i = (b, ReTransform s f)"
    "truthy err" "truthy (p_skipUpdateError (streams w ! s))" "s < length (streams w)"
  shows "case buffered (streams w ! s) of
           [] \<Rightarrow> \<not> transforming (streams (step rv (BundleDone i err source) w) ! s)
         | c # cs \<Rightarrow>
             buffered (streams (step rv (BundleDone i err source) w) ! s) = cs
             \<and> pending (step rv (BundleDone i err source) w) =
                 take i (pending w) @ drop (Suc i) (pending w) @
                 [(p_bundlerInstance (streams w ! s), ReTransform s c)]"
  using assms
  by (cases rv)
     (auto simp add: step_BundleDone ReBundle_bundled_def stream_done_def Let_def
        ReBundle_transform_def finishIfResolved_def registerAsync_def split: list.splits)

lemma streams_ok_alt:
  "streams_ok sk w \<longleftrightarrow>
     (\<forall>b s f. (b, ReTransform s f) \<in> set (pending w) \<longrightarrow> s < length (streams w))
     \<and> (\<forall>t dl s. (t, dl, s) \<in> set (timers w) \<longrightarrow> s < length (streams w))
     \<and> (\<forall>s. p_rebundleStream (gw w) = Some s \<longrightarrow> s < length (streams w))
     \<and> p_skipUpdateError (gw w) = JBool sk
     \<and> (\<forall>c\<in>set (map config (streams w)). fst (snd (snd c)) = JBool sk)"
  by (auto simp add: streams_ok_def split: transform_call.splits option.splits) force+

lemma new_stream_config:
  "rv \<noteq> index_js \<Longrightarrow>
   fst (snd (snd (config (ReBundle rv b v JUndefined (JBool sk))))) = JBool sk"
  by (cases rv) (simp_all add: config_def ReBundle_def AbstractBundleStream_def Let_def)

lemma streams_ok_preserved:
  assumes ok: "streams_ok sk w"
    and p: "\<And>b s f. (b, ReTransform s f) \<in> set (pending w') \<Longrightarrow>
              (b, ReTransform s f) \<in> set (pending w) \<or> s < length (streams w')"
    and t: "\<And>t dl s. (t, dl, s) \<in> set (timers w') \<Longrightarrow>
              (t, dl, s) \<in> set (timers w) \<or> s < length (streams w')"
    and r: "\<And>s. p_rebundleStream (gw w') = Some s \<Longrightarrow>
              p_rebundleStream (gw w) = Some s \<or> s < length (streams w')"
    and k: "p_skipUpdateError (gw w') = p_skipUpdateError (gw w)"
    and l: "length (streams w) \<le> length (streams w')"
    and c: "\<And>c. c \<in> set (map config (streams w')) \<Longrightarrow>
              c \<in> set (map config (streams w)) \<or> fst (snd (snd c)) = JBool sk"
  shows "streams_ok sk w'"
proof -
  from ok have
    p0: "\<And>b s f. (b, ReTransform s f) \<in> set (pending w) \<Longrightarrow> s < length (streams w)" and
    t0: "\<And>t dl s. (t, dl, s) \<in> set (timers w) \<Longrightarrow> s < length (streams w)" and
    r0: "\<And>s. p_rebundleStream (gw w) = Some s \<Longrightarrow> s < length (streams w)" and
    k0: "p_skipUpdateError (gw w) = JBool sk" and
    c0: "\<And>c. c \<in> set (map config (streams w)) \<Longrightarrow> fst (snd (snd c)) = JBool sk"
    unfolding streams_ok_alt by blast+
  have 1: "s < length (streams w')" if "(b, ReTransform s f) \<in> set (pending w')" for b s f
    using p [OF that] p0 l by (metis less_le_trans)
  have 2: "s < length (streams w')" if "(t, dl, s) \<in> set (timers w')" for t dl s
    using t [OF that] t0 l by (metis less_le_trans)
  have 3: "s < length (streams w')" if "p_rebundleStream (gw w') = Some s" for s
    using r [OF that] r0 l by (metis less_le_trans)
  have 4: "p_skipUpdateError (gw w') = JBool sk" using k k0 by simp
  have 5: "fst (snd (snd x)) = JBool sk" if "x \<in> set (map config (streams w'))" for x
    using c [OF that] c0 by blast
  from 1 2 3 4 5 show ?thesis unfolding streams_ok_alt by blast
qed

lemma streams_ok_update:
  assumes rv: "rv \<noteq> index_js" and ok: "streams_ok sk w"
  shows "streams_ok sk (handleUpdate rv f b (eff (Emit (Update f b)) w))"
proof (cases "truthy (p_rebundle (gw w))")
  case False
  show ?thesis
    by (rule streams_ok_preserved [OF ok]) (simp_all add: handleUpdate_off False)
next
  case True
  let ?w1 = "eff (Emit (Update f b)) w"
  let ?w' = "handleUpdate rv f b ?w1"
  have on: "truthy (p_rebundle (gw ?w1))" using True by simp
  note hu = handleUpdate_simps [OF on]
  from ok have r0: "\<And>s. p_rebundleStream (gw w) = Some s \<Longrightarrow> s < length (streams w)"
    and k0: "p_skipUpdateError (gw w) = JBool sk"
    unfolding streams_ok_alt by blast+
  have cur: "current_stream ?w1 < length (streams ?w')"
    using r0 by (cases "p_rebundleStream (gw w)") (simp_all add: hu current_stream_def)
  show ?thesis
  proof (rule streams_ok_preserved [OF ok])
    fix c s g assume "(c, ReTransform s g) \<in> set (pending ?w')"
    from pending_handleUpdate [OF on this] cur
    show "(c, ReTransform s g) \<in> set (pending w) \<or> s < length (streams ?w')"
      by auto
  next
    fix t dl s assume "(t, dl, s) \<in> set (timers ?w')"
    then show "(t, dl, s) \<in> set (timers w) \<or> s < length (streams ?w')"
      using cur by (auto simp add: hu)
  next
    fix s assume "p_rebundleStream (gw ?w') = Some s"
    then show "p_rebundleStream (gw w) = Some s \<or> s < length (streams ?w')"
      using cur by (simp add: hu)
  next
    show "p_skipUpdateError (gw ?w') = p_skipUpdateError (gw w)" by (simp add: hu)
  next
    show "length (streams w) \<le> length (streams ?w')"
      by (simp add: hu split: option.splits)
  next
    fix c assume "c \<in> set (map config (streams ?w'))"
    then show "c \<in> set (map config (streams w)) \<or> fst (snd (snd c)) = JBool sk"
      using new_stream_config [OF rv, of b "JBool (verbose (gw w))" sk] k0
      by (cases "p_rebundleStream (gw w)") (auto simp add: config_handleUpdate [OF on])
  qed
qed

lemma streams_ok_step:
  assumes rv: "rv \<noteq> index_js" and ok: "streams_ok sk w"
  shows "streams_ok sk (step rv e w)"
proof (cases e)
  case (Transform v)
  show ?thesis unfolding Transform
    by (rule streams_ok_preserved [OF ok])
       (auto simp add: step_def dest!: pending_GulpWatchify_transform)
next
  case (BundleDone i err source)
  show ?thesis
  proof (cases "i < length (pending w)")
    case False
    then show ?thesis using ok BundleDone by (simp add: step_BundleDone)
  next
    case True
    let ?w1 = "w\<lparr>pending := take i (pending w) @ drop (Suc i) (pending w)\<rparr>"
    have sub: "x \<in> set (pending ?w1) \<Longrightarrow> x \<in> set (pending w)" for x
      by (auto dest: in_set_takeD in_set_dropD)
    show ?thesis
    proof (cases "snd (pending w ! i)")
      case (MainTransform g)
      have st: "step rv e w = firstBundleCallback rv g err source ?w1"
        using BundleDone True MainTransform by (simp add: step_BundleDone)
      show ?thesis unfolding st
        by (rule streams_ok_preserved [OF ok]) (use sub in \<open>simp_all\<close>)
    next
      case (ReTransform s g)
      have st: "step rv e w = ReBundle_bundled rv s g err source ?w1"
        using BundleDone True ReTransform by (simp add: step_BundleDone)
      have "pending w ! i \<in> set (pending w)" using True by simp
      then have "(fst (pending w ! i), ReTransform s g) \<in> set (pending w)"
        using ReTransform by (metis prod.collapse)
      with ok have s: "s < length (streams w)" unfolding streams_ok_alt by blast
      show ?thesis unfolding st
      proof (rule streams_ok_preserved [OF ok])
        fix c s' g' assume "(c, ReTransform s' g') \<in> set (pending (ReBundle_bundled rv s g err source ?w1))"
        from pending_frames(4) [OF this] sub s
        show "(c, ReTransform s' g') \<in> set (pending w)
              \<or> s' < length (streams (ReBundle_bundled rv s g err source ?w1))"
          by auto
      qed simp_all
    qed
  qed
next
  case (UpdateEv b)
  then show ?thesis using ok streams_ok_update [OF rv ok]
    by (simp add: step_UpdateEv)
next
  case (WatchEv b v)
  show ?thesis unfolding WatchEv using ok
    by (cases "b < length (bundlers w)") (simp_all add: step_def streams_ok_alt)
next
  case (Elapse d)
  show ?thesis unfolding Elapse
    by (rule streams_ok_preserved [OF ok]) (simp_all add: step_def split: if_splits)
next
  case (External r ob)
  show ?thesis unfolding External
    by (rule streams_ok_preserved [OF ok]) (simp_all add: step_def)
qed

lemma boolean_or_true_iff: "boolean_or_true v \<longleftrightarrow> v \<noteq> JBool False"
  by (cases v) auto

lemma streams_ok_init:
  "rv \<noteq> index_js \<Longrightarrow>
   streams_ok (boolean_or_true (opt_skipUpdateError (options_or_empty oa))) (init rv oa h)"
  by (cases rv)
     (simp_all add: streams_ok_alt init_def GulpWatchify_def AbstractBundleStream_def Let_def
        split: prod.splits)

lemma streams_ok_run:
  "rv \<noteq> index_js \<Longrightarrow>
   streams_ok (boolean_or_true (opt_skipUpdateError (options_or_empty oa)))
     (run rv evs (init rv oa h))"
  by (induction evs rule: rev_induct) (simp_all add: streams_ok_init streams_ok_step)

text \<open>
  C4: in part_000 and part_001, when the bundle of a chunk written to a ReBundle stream
  fails, the plugin error goes to the stream's callback exactly when the option
  \<^verbatim>\<open>skipUpdateError\<close> is false, and then nothing else happens. Otherwise the error
  is logged and the callback is called without an error; nothing but log lines and, in
  part_000, the end marker follows (no file); and the stream goes on: the next buffered
  chunk is handed to the bundler, or the stream is free for the next write.
\<close>

theorem rebundle_error_forwarded_iff_not_skipped:
  assumes "rv = part_000 \<or> rv = part_001"
    and "i < length (pending (run rv evs (init rv oa h)))"
    and "pending (run rv evs (init rv oa h)) ! i = (b, ReTransform s f)"
    and "truthy err"
  shows "(opt_skipUpdateError (options_or_empty oa) = JBool False \<longrightarrow>
            effects (step rv (BundleDone i err source) (run rv evs (init rv oa h))) =
              effects (run rv evs (init rv oa h)) @
              [(now (run rv evs (init rv oa h)),
                Done (ReTransform s f) (Some (PluginError ''gulp-watchify'' err)))])
       \<and> (opt_skipUpdateError (options_or_empty oa) \<noteq> JBool False \<longrightarrow>
            (\<exists>rest.
               effects (step rv (BundleDone i err source) (run rv evs (init rv oa h))) =
                 effects (run rv evs (init rv oa h)) @
                 [(now (run rv evs (init rv oa h)),
                   Log (LogEncounteredError
                          (Some (get_prop (store (run rv evs (init rv oa h))) f ''path'')))),
                  (now (run rv evs (init rv oa h)), Log (LogValue err)),
                  (now (run rv evs (init rv oa h)), Done (ReTransform s f) None)] @ rest
               \<and> set rest \<subseteq>
                   {(now (run rv evs (init rv oa h)), RPush s None)} \<union>
                   range (\<lambda>p. (now (run rv evs (init rv oa h)), Log (LogUpdating p))))
          \<and> (case buffered (streams (run rv evs (init rv oa h)) ! s) of
                [] \<Rightarrow> \<not> transforming
                         (streams (step rv (BundleDone i err source)
                                     (run rv evs (init rv oa h))) ! s)
              | c # cs \<Rightarrow>
                  buffered (streams (step rv (BundleDone i err source)
                                       (run rv evs (init rv oa h))) ! s) = cs
                  \<and> pending (step rv (BundleDone i err source) (run rv evs (init rv oa h))) =
                      take i (pending (run rv evs (init rv oa h))) @
                      drop (Suc i) (pending (run rv evs (init rv oa h))) @
                      [(p_bundlerInstance (streams (run rv evs (init rv oa h)) ! s),
                        ReTransform s c)]))"
proof -
  let ?w = "run rv evs (init rv oa h)"
  let ?sk = "boolean_or_true (opt_skipUpdateError (options_or_empty oa))"
  have rv: "rv \<noteq> index_js" using assms(1) by auto
  have ok: "streams_ok ?sk ?w" by (rule streams_ok_run [OF rv])
  have "pending ?w ! i \<in> set (pending ?w)" using assms(2) by simp
  then have "(b, ReTransform s f) \<in> set (pending ?w)" using assms(3) by simp
  with ok have s: "s < length (streams ?w)" unfolding streams_ok_alt by blast
  then have "config (streams ?w ! s) \<in> set (map config (streams ?w))" by simp
  with ok have "fst (snd (snd (config (streams ?w ! s)))) = JBool ?sk"
    unfolding streams_ok_alt by blast
  then have flag: "p_skipUpdateError (streams ?w ! s) = JBool ?sk" by (simp add: config_def)
  show ?thesis
  proof (cases "opt_skipUpdateError (options_or_empty oa) = JBool False")
    case True
    then have "\<not> truthy (p_skipUpdateError (streams ?w ! s))" using flag by simp
    from rebundle_error_forwarded [OF rv assms(2,3,4) this] True show ?thesis by simp
  next
    case False
    then have t: "truthy (p_skipUpdateError (streams ?w ! s))"
      using flag by (simp add: boolean_or_true_iff)
    from rebundle_error_skipped [OF rv assms(2,3,4) t]
         rebundle_error_skipped_goes_on [OF rv assms(2,3,4) t s] False
    show ?thesis by simp
  qed
qed

theorem rebundle_error_forwarded_iff_not_skipped_witness:
  "1 < length (pending example_fatal)
   \<and> pending example_fatal ! 1 = (0, ReTransform 0 (JRef 0))
   \<and> truthy (JStr ''boom'')
   \<and> effects (step part_000 (BundleDone 1 (JStr ''boom'') ''src'') example_fatal) =
       effects example_fatal @
       [(500, Done (ReTransform 0 (JRef 0))
                (Some (PluginError ''gulp-watchify'' (JStr ''boom''))))]"
proof -
  let ?oa = "Some (no_options\<lparr>opt_skipUpdateError := JBool False\<rparr>)"
  have r: "part_000 = part_000 \<or> part_000 = part_001" by simp
  have h1: "1 < length (pending example_fatal)" by code_simp
  have h2: "pending example_fatal ! 1 = (0, ReTransform 0 (JRef 0))" by code_simp
  have h3: "truthy (JStr ''boom'')" by simp
  have o: "opt_skipUpdateError (options_or_empty ?oa) = JBool False" by code_simp
  have n: "now example_fatal = 500" by code_simp
  from rebundle_error_forwarded_iff_not_skipped
         [OF r h1 [unfolded example_fatal_def] h2 [unfolded example_fatal_def] h3, of "''src''"] o n
  have "effects (step part_000 (BundleDone 1 (JStr ''boom'') ''src'') example_fatal) =
          effects example_fatal @
          [(500, Done (ReTransform 0 (JRef 0))
                   (Some (PluginError ''gulp-watchify'' (JStr ''boom''))))]"
    by (simp add: example_fatal_def)
  with h1 h2 h3 show ?thesis by simp
qed

section \<open>Errors of the first bundle\<close>

text \<open>
  In part_000 and part_001 an error of the first bundle goes to the transform callback
  as a plugin error, and nothing else happens: no file is pushed.
\<close>

lemma first_bundle_error_is_fatal:
  assumes "rv = part_000 \<or> rv = part_001"
    and "i < length (pending w)" and "pending w ! i = (b, MainTransform v)" and "truthy err"
  shows "step rv (BundleDone i err source) w =
           w\<lparr>pending := take i (pending w) @ drop (Suc i) (pending w),
             effects := effects w @
               [(now w, Done (MainTransform v) (Some (PluginError ''gulp-watchify'' err)))]\<rparr>"
  using assms by (auto simp add: step_BundleDone firstBundleCallback_def eff_def Let_def)

text \<open>
  In index.js the error goes through \<^verbatim>\<open>_handleError\<close>: it reaches the callback only
  when \<^verbatim>\<open>_skipError\<close> is false, and \<^verbatim>\<open>_skipError\<close> is true unless the option says
  otherwise.
\<close>

lemma first_bundle_error_index_js:
  assumes "i < length (pending w)" and "pending w ! i = (b, MainTransform v)" and "truthy err"
  shows "effects (step index_js (BundleDone i err source) w) =
           effects w @
           (if \<not> truthy (p_skipError (gw w))
            then [(now w, Done (MainTransform v) (Some (PluginError ''gulp-watchify'' err)))]
            else (if verbose (gw w)
                  then [(now w, Log (LogEncounteredError None)), (now w, Log (LogValue err))]
                  else []) @
                 [(now w, Done (MainTransform v) None)])"
  using assms
  by (simp add: step_BundleDone firstBundleCallback_def handleError_def Let_def)

text \<open>The flag \<^verbatim>\<open>_skipError\<close> of the instance is set by the constructor and never changes.\<close>

lemma p_skipError_step: "p_skipError (gw (step rv e w)) = p_skipError (gw w)"
  using gw_step [of rv e w] by auto

lemma p_skipError_run: "p_skipError (gw (run rv evs w)) = p_skipError (gw w)"
  by (induction evs rule: rev_induct) (simp_all add: p_skipError_step)

lemma p_skipError_init:
  "p_skipError (gw (init index_js oa h)) =
     JBool (boolean_or_true (opt_skipError (options_or_empty oa)))"
  by (simp add: init_def GulpWatchify_def AbstractBundleStream_def Let_def split: prod.splits)

text \<open>
  C5, amended: when the first bundle of an entry file fails, no file is pushed for it.
  In part_000 and part_001 the transform callback is called with a plugin error that
  wraps the bundler's error, and that is the only effect. In index.js the same happens
  exactly when the option \<^verbatim>\<open>skipError\<close> is false; otherwise (the default) the error is
  logged, when the instance is verbose, and the callback is called without an error.
\<close>

theorem first_bundle_error_forwarded_unless_skipped:
  assumes "i < length (pending (run rv evs (init rv oa h)))"
    and "pending (run rv evs (init rv oa h)) ! i = (b, MainTransform v)"
    and "truthy err"
  shows "effects (step rv (BundleDone i err source) (run rv evs (init rv oa h))) =
           effects (run rv evs (init rv oa h)) @
           (if rv = index_js \<and> opt_skipError (options_or_empty oa) \<noteq> JBool False
            then (if verbose (gw (run rv evs (init rv oa h)))
                  then [(now (run rv evs (init rv oa h)), Log (LogEncounteredError None)),
                        (now (run rv evs (init rv oa h)), Log (LogValue err))]
                  else []) @
                 [(now (run rv evs (init rv oa h)), Done (MainTransform v) None)]
            else [(now (run rv evs (init rv oa h)),
                   Done (MainTransform v) (Some (PluginError ''gulp-watchify'' err)))])"
proof (cases rv)
  case index_js
  have "p_skipError (gw (run index_js evs (init index_js oa h))) =
          JBool (boolean_or_true (opt_skipError (options_or_empty oa)))"
    by (simp add: p_skipError_run p_skipError_init)
  then have "truthy (p_skipError (gw (run index_js evs (init index_js oa h)))) \<longleftrightarrow>
               opt_skipError (options_or_empty oa) \<noteq> JBool False"
    by (simp add: boolean_or_true_iff)
  then show ?thesis
    using first_bundle_error_index_js [OF assms [unfolded index_js], of source] index_js
    by simp
next
  case part_001
  then have "rv = part_000 \<or> rv = part_001" by simp
  from first_bundle_error_is_fatal [OF this assms, of source] part_001 show ?thesis by simp
next
  case part_000
  then have "rv = part_000 \<or> rv = part_001" by simp
  from first_bundle_error_is_fatal [OF this assms, of source] part_000 show ?thesis by simp
qed

theorem first_bundle_error_forwarded_unless_skipped_witness:
  "0 < length (pending example_skipError_false)
   \<and> pending example_skipError_false ! 0 = (0, MainTransform (JRef 0))
   \<and> truthy (JStr ''boom'')
   \<and> effects (step index_js (BundleDone 0 (JStr ''boom'') ''src'') example_skipError_false) =
       effects example_skipError_false @
       [(0, Done (MainTransform (JRef 0))
              (Some (PluginError ''gulp-watchify'' (JStr ''boom''))))]"
proof -
  let ?oa = "Some (no_options\<lparr>opt_skipError := JBool False\<rparr>)"
  have h1: "0 < length (pending example_skipError_false)" by code_simp
  have h2: "pending example_skipError_false ! 0 = (0, MainTransform (JRef 0))" by code_simp
  have h3: "truthy (JStr ''boom'')" by simp
  have o: "opt_skipError (options_or_empty ?oa) = JBool False" by code_simp
  have n: "now example_skipError_false = 0" by code_simp
  from first_bundle_error_forwarded_unless_skipped
         [OF h1 [unfolded example_skipError_false_def] h2 [unfolded example_skipError_false_def] h3,
          of "''src''"] o n
  have "effects (step index_js (BundleDone 0 (JStr ''boom'') ''src'') example_skipError_false) =
          effects example_skipError_false @
          [(0, Done (MainTransform (JRef 0))
                 (Some (PluginError ''gulp-watchify'' (JStr ''boom''))))]"
    by (simp add: example_skipError_false_def)
  with h1 h2 h3 show ?thesis by simp
qed

text \<open>
  C5 as it is stated fails at src/index.js: with no options the first bundle of the
  entry file fails with a truthy error, the failure is logged, and the transform
  callback is called without an error; no plugin error reaches it.
\<close>

theorem index_js_first_bundle_error_not_forwarded:
  "truthy (JStr ''boom'')
   \<and> effects example_first_bundle_fails =
       [(0, Log (LogBundling (JStr ''a.js''))),
        (0, Log (LogEncounteredError None)),
        (0, Log (LogValue (JStr ''boom''))),
        (0, Done (MainTransform (JRef 0)) None)]
   \<and> (0, Done (MainTransform (JRef 0)) (Some (PluginError ''gulp-watchify'' (JStr ''boom''))))
       \<notin> set (effects example_first_bundle_fails)"
  by code_simp

section \<open>Rebundling switched off\<close>

text \<open>
  In part_000 and part_001 the option \<^verbatim>\<open>rebundle: false\<close> makes \<^verbatim>\<open>_handleUpdate\<close> do
  nothing, in every world the instance can reach: an 'update' of a bundler is emitted
  again by the instance and that is all.
\<close>

lemma rebundle_false_update_is_noop:
  assumes "rv = part_000 \<or> rv = part_001"
    and "opt_rebundle (options_or_empty oa) = JBool False"
  shows "handleUpdate rv f b (run rv evs (init rv oa h)) = run rv evs (init rv oa h)"
    and "step rv (UpdateEv b) (run rv evs (init rv oa h)) =
           (if b < length (bundlers (run rv evs (init rv oa h)))
            then eff (Emit (Update (b_srcFile (bundlers (run rv evs (init rv oa h)) ! b)) b))
                   (run rv evs (init rv oa h))
            else run rv evs (init rv oa h))"
proof -
  have "p_rebundle (gw (init rv oa h)) = JBool False"
    using assms by (auto simp add: init_def GulpWatchify_def Let_def split: prod.splits)
  then have off: "\<not> truthy (p_rebundle (gw (run rv evs (init rv oa h))))"
    by (simp add: gw_run_fields)
  then show "handleUpdate rv f b (run rv evs (init rv oa h)) = run rv evs (init rv oa h)"
    by (rule handleUpdate_off)
  from off show "step rv (UpdateEv b) (run rv evs (init rv oa h)) =
           (if b < length (bundlers (run rv evs (init rv oa h)))
            then eff (Emit (Update (b_srcFile (bundlers (run rv evs (init rv oa h)) ! b)) b))
                   (run rv evs (init rv oa h))
            else run rv evs (init rv oa h))"
    by (simp add: step_UpdateEv handleUpdate_off)
qed

text \<open>
  C9, at src/index.js: line 164 reads \<^verbatim>\<open>typeof options.skipError\<close> where it means
  \<^verbatim>\<open>typeof options.rebundle\<close>, so with the options \<^verbatim>\<open>{rebundle: false}\<close> the flag
  \<^verbatim>\<open>_rebundle\<close> is true: the update makes a ReBundle stream, emits 'rebundle', writes the
  entry file to the stream and sets a timeout.
\<close>

theorem index_js_rebundle_false_still_rebundles:
  "p_rebundle (gw example_rebundle_false) = JBool True
   \<and> length (streams example_rebundle_false) = 1
   \<and> rebundles_of (effects example_rebundle_false) = [0]
   \<and> writes_to 0 (effects example_rebundle_false) = [JRef 0]
   \<and> timers example_rebundle_false = [(0, 800, 0)]"
  by code_simp

section \<open>The end of a ReBundle stream\<close>

text \<open>
  C2, at src/index.js (and part_001): the timeout pushes the end marker itself. Here it
  runs while the bundle callback of the chunk written to the stream is still pending;
  when the bundler then calls back, the file is pushed after the end marker.
\<close>

theorem index_js_end_marker_before_bundle_callback:
  "pending example_timeout_first = [(0, MainTransform (JRef 0)), (0, ReTransform 0 (JRef 0))]
   \<and> last (effects example_timeout_first) = (800, RPush 0 None)
   \<and> drop (length (effects example_timeout_first))
        (effects (step index_js (BundleDone 1 JNull ''src'') example_timeout_first)) =
       [(800, RPush 0 (Some \<lparr> contents = Buffer ''src'', base = JStr ''/b'',
                               cwd = JStr ''/c'', path = JStr ''a.js'' \<rparr>)),
        (800, Log (LogReBundled (JStr ''a.js''))),
        (800, Done (ReTransform 0 (JRef 0)) None)]"
  by code_simp

section \<open>The counter of unresolved operations in part_000\<close>

lemma effect_counts_append [simp]:
  "fatal_of s (es @ es') = fatal_of s es + fatal_of s es'"
  "ended_in s (es @ es') \<longleftrightarrow> ended_in s es \<or> ended_in s es'"
  by (auto simp add: fatal_of_def ended_in_def)

lemma effect_counts_Nil [simp]: "fatal_of s [] = 0" "\<not> ended_in s []"
  by (simp_all add: fatal_of_def ended_in_def)

lemma effect_counts_Cons [simp]:
  "fatal_of s ((t, e) # es) =
     (case e of Done (ReTransform s' f) (Some x) \<Rightarrow> (if s' = s then 1 else 0) | _ \<Rightarrow> 0)
     + fatal_of s es"
  "ended_in s ((t, e) # es) \<longleftrightarrow> e = RPush s None \<or> ended_in s es"
  by (auto simp add: fatal_of_def ended_in_def
        split: effect.splits transform_call.splits option.splits)

lemma nth_update_cases:
  "s < length xs \<Longrightarrow> xs[s := y] ! s' = (if s' = s then y else xs ! s')"
  by simp

lemma obs_eff [simp]:
  "cnt s (eff e w) = cnt s w" "buf s (eff e w) = buf s w" "trf s (eff e w) = trf s w"
  "outstanding s (eff e w) = outstanding s w" "armed s (eff e w) = armed s w"
  by (simp_all add: cnt_def buf_def trf_def outstanding_def armed_def)

lemma obs_registerAsync:
  assumes "s < length (streams w)"
  shows "cnt s' (registerAsync s w) = cnt s' w + (if s' = s then 1 else 0)"
    and "buf s' (registerAsync s w) = buf s' w"
    and "trf s' (registerAsync s w) = trf s' w"
  using assms by (auto simp add: cnt_def buf_def trf_def registerAsync_def nth_update_cases)

lemma obs_finishIfResolved:
  assumes "s < length (streams w)"
  shows "cnt s' (finishIfResolved s w) = cnt s' w - (if s' = s then 1 else 0)"
    and "buf s' (finishIfResolved s w) = buf s' w"
    and "trf s' (finishIfResolved s w) = trf s' w"
    and "fatal_of s' (effects (finishIfResolved s w)) = fatal_of s' (effects w)"
    and "ended_in s' (effects (finishIfResolved s w)) \<longleftrightarrow>
           ended_in s' (effects w) \<or> (s' = s \<and> cnt s w = 1)"
    and "outstanding s' (finishIfResolved s w) = outstanding s' w"
    and "armed s' (finishIfResolved s w) = armed s' w"
  using assms
  by (auto simp add: cnt_def buf_def trf_def finishIfResolved_def Let_def outstanding_def
        armed_def nth_update_cases)

lemma obs_ReBundle_transform:
  assumes "s < length (streams w)"
  shows "cnt s' (ReBundle_transform part_000 s f w) = cnt s' w + (if s' = s then 1 else 0)"
    and "buf s' (ReBundle_transform part_000 s f w) = buf s' w"
    and "trf s' (ReBundle_transform part_000 s f w) = trf s' w"
    and "fatal_of s' (effects (ReBundle_transform part_000 s f w)) = fatal_of s' (effects w)"
    and "ended_in s' (effects (ReBundle_transform part_000 s f w)) \<longleftrightarrow> ended_in s' (effects w)"
    and "outstanding s' (ReBundle_transform part_000 s f w) =
           outstanding s' w + (if s' = s then 1 else 0)"
    and "armed s' (ReBundle_transform part_000 s f w) = armed s' w"
  using assms
  by (auto simp add: cnt_def buf_def trf_def ReBundle_transform_def Let_def outstanding_def
        armed_def registerAsync_def for_stream_def nth_update_cases)

lemma obs_stream_write:
  assumes "s < length (streams w)"
  shows "cnt s' (stream_write part_000 s f w) =
           cnt s' w + (if s' = s \<and> \<not> trf s w then 1 else 0)"
    and "buf s' (stream_write part_000 s f w) =
           buf s' w @ (if s' = s \<and> trf s w then [f] else [])"
    and "trf s' (stream_write part_000 s f w) \<longleftrightarrow> s' = s \<or> trf s' w"
    and "fatal_of s' (effects (stream_write part_000 s f w)) = fatal_of s' (effects w)"
    and "ended_in s' (effects (stream_write part_000 s f w)) \<longleftrightarrow> ended_in s' (effects w)"
    and "outstanding s' (stream_write part_000 s f w) =
           outstanding s' w + (if s' = s \<and> \<not> trf s w then 1 else 0)"
    and "armed s' (stream_write part_000 s f w) = armed s' w"
  using assms
  by (auto simp add: cnt_def buf_def trf_def stream_write_def ReBundle_transform_def Let_def
        outstanding_def armed_def registerAsync_def for_stream_def nth_update_cases)

lemma obs_stream_done:
  assumes "s < length (streams w)"
  shows "cnt s' (stream_done part_000 s f e w) =
           cnt s' w + (if s' = s \<and> e = None \<and> buf s w \<noteq> [] then 1 else 0)"
    and "buf s' (stream_done part_000 s f e w) =
           (if s' = s \<and> e = None then tl (buf s w) else buf s' w)"
    and "trf s' (stream_done part_000 s f e w) \<longleftrightarrow>
           (if s' = s then e = None \<and> buf s w \<noteq> [] \<and> trf s w else trf s' w)"
    and "fatal_of s' (effects (stream_done part_000 s f e w)) =
           fatal_of s' (effects w) + (if s' = s \<and> e \<noteq> None then 1 else 0)"
    and "ended_in s' (effects (stream_done part_000 s f e w)) \<longleftrightarrow> ended_in s' (effects w)"
    and "outstanding s' (stream_done part_000 s f e w) =
           outstanding s' w + (if s' = s \<and> e = None \<and> buf s w \<noteq> [] then 1 else 0)"
    and "armed s' (stream_done part_000 s f e w) = armed s' w"
  using assms
  by (auto simp add: cnt_def buf_def trf_def stream_done_def ReBundle_transform_def Let_def
        outstanding_def armed_def registerAsync_def for_stream_def nth_update_cases
        split: option.splits list.splits)

lemma obs_record_updates [simp]:
  "cnt s (w\<lparr>pending := p\<rparr>) = cnt s w" "buf s (w\<lparr>pending := p\<rparr>) = buf s w"
  "trf s (w\<lparr>pending := p\<rparr>) = trf s w" "armed s (w\<lparr>pending := p\<rparr>) = armed s w"
  "cnt s (w\<lparr>timers := ts\<rparr>) = cnt s w" "buf s (w\<lparr>timers := ts\<rparr>) = buf s w"
  "trf s (w\<lparr>timers := ts\<rparr>) = trf s w" "outstanding s (w\<lparr>timers := ts\<rparr>) = outstanding s w"
  "cnt s (w\<lparr>now := t\<rparr>) = cnt s w" "buf s (w\<lparr>now := t\<rparr>) = buf s w"
  "trf s (w\<lparr>now := t\<rparr>) = trf s w" "outstanding s (w\<lparr>now := t\<rparr>) = outstanding s w"
  "armed s (w\<lparr>now := t\<rparr>) = armed s w"
  "cnt s (w\<lparr>gw := g\<rparr>) = cnt s w" "buf s (w\<lparr>gw := g\<rparr>) = buf s w"
  "trf s (w\<lparr>gw := g\<rparr>) = trf s w" "outstanding s (w\<lparr>gw := g\<rparr>) = outstanding s w"
  "armed s (w\<lparr>gw := g\<rparr>) = armed s w"
  "cnt s (w\<lparr>next_timer := n\<rparr>) = cnt s w" "buf s (w\<lparr>next_timer := n\<rparr>) = buf s w"
  "trf s (w\<lparr>next_timer := n\<rparr>) = trf s w"
  "outstanding s (w\<lparr>next_timer := n\<rparr>) = outstanding s w"
  "armed s (w\<lparr>next_timer := n\<rparr>) = armed s w"
  "cnt s (w\<lparr>store := h\<rparr>) = cnt s w" "buf s (w\<lparr>store := h\<rparr>) = buf s w"
  "trf s (w\<lparr>store := h\<rparr>) = trf s w" "outstanding s (w\<lparr>store := h\<rparr>) = outstanding s w"
  "armed s (w\<lparr>store := h\<rparr>) = armed s w"
  by (simp_all add: cnt_def buf_def trf_def outstanding_def armed_def)

lemma obs_ReBundle_bundled:
  assumes "s < length (streams w)"
  shows "cnt s' (ReBundle_bundled part_000 s f err src w) =
           cnt s' w +
           (if s' = s \<and> \<not> (truthy err \<and> \<not> truthy (p_skipUpdateError (streams w ! s)))
            then (if buf s w \<noteq> [] then 1 else 0) - 1 else 0)"
    and "buf s' (ReBundle_bundled part_000 s f err src w) =
           (if s' = s \<and> \<not> (truthy err \<and> \<not> truthy (p_skipUpdateError (streams w ! s)))
            then tl (buf s w) else buf s' w)"
    and "trf s' (ReBundle_bundled part_000 s f err src w) \<longleftrightarrow>
           (if s' = s
            then \<not> (truthy err \<and> \<not> truthy (p_skipUpdateError (streams w ! s)))
                 \<and> buf s w \<noteq> [] \<and> trf s w
            else trf s' w)"
    and "fatal_of s' (effects (ReBundle_bundled part_000 s f err src w)) =
           fatal_of s' (effects w) +
           (if s' = s \<and> truthy err \<and> \<not> truthy (p_skipUpdateError (streams w ! s))
            then 1 else 0)"
    and "ended_in s' (effects (ReBundle_bundled part_000 s f err src w)) \<longleftrightarrow>
           ended_in s' (effects w)
           \<or> (s' = s \<and> \<not> (truthy err \<and> \<not> truthy (p_skipUpdateError (streams w ! s)))
               \<and> cnt s w + (if buf s w \<noteq> [] then 1 else 0) = 1)"
    and "outstanding s' (ReBundle_bundled part_000 s f err src w) =
           outstanding s' w +
           (if s' = s \<and> \<not> (truthy err \<and> \<not> truthy (p_skipUpdateError (streams w ! s)))
               \<and> buf s w \<noteq> []
            then 1 else 0)"
    and "armed s' (ReBundle_bundled part_000 s f err src w) = armed s' w"
  using assms
  by (auto simp add: ReBundle_bundled_def Let_def obs_stream_done obs_finishIfResolved)

lemma obs_timeout_callback:
  assumes "s < length (streams w)"
  shows "cnt s' (timeout_callback part_000 s w) = cnt s' w - (if s' = s then 1 else 0)"
    and "buf s' (timeout_callback part_000 s w) = buf s' w"
    and "trf s' (timeout_callback part_000 s w) = trf s' w"
    and "fatal_of s' (effects (timeout_callback part_000 s w)) = fatal_of s' (effects w)"
    and "ended_in s' (effects (timeout_callback part_000 s w)) \<longleftrightarrow>
           ended_in s' (effects w) \<or> (s' = s \<and> cnt s w = 1)"
    and "outstanding s' (timeout_callback part_000 s w) = outstanding s' w"
    and "armed s' (timeout_callback part_000 s w) = armed s' w"
  using assms by (simp_all add: timeout_callback_def Let_def obs_finishIfResolved)

lemma obs_clearTimeout [simp]:
  "cnt s (clearTimeout t w) = cnt s w" "buf s (clearTimeout t w) = buf s w"
  "trf s (clearTimeout t w) = trf s w" "outstanding s (clearTimeout t w) = outstanding s w"
  by (simp_all add: cnt_def buf_def trf_def outstanding_def)

lemma obs_handleUpdate_same_stream:
  assumes "truthy (p_rebundle (gw w))" and "p_rebundleStream (gw w) = Some s"
    and "s < length (streams w)"
  shows "cnt s' (handleUpdate part_000 f b w) = cnt s' w + (if s' = s \<and> \<not> trf s w then 1 else 0)"
    and "buf s' (handleUpdate part_000 f b w) = buf s' w @ (if s' = s \<and> trf s w then [f] else [])"
    and "trf s' (handleUpdate part_000 f b w) \<longleftrightarrow> s' = s \<or> trf s' w"
    and "fatal_of s' (effects (handleUpdate part_000 f b w)) = fatal_of s' (effects w)"
    and "ended_in s' (effects (handleUpdate part_000 f b w)) \<longleftrightarrow> ended_in s' (effects w)"
    and "outstanding s' (handleUpdate part_000 f b w) =
           outstanding s' w + (if s' = s \<and> \<not> trf s w then 1 else 0)"
  using assms
  by (simp_all add: handleUpdate_def Let_def obs_stream_write)

lemma obs_handleUpdate_new_stream:
  assumes "truthy (p_rebundle (gw w))" and "p_rebundleStream (gw w) = None"
  shows "s' < length (streams w) \<Longrightarrow> cnt s' (handleUpdate part_000 f b w) = cnt s' w"
    and "s' < length (streams w) \<Longrightarrow> buf s' (handleUpdate part_000 f b w) = buf s' w"
    and "s' < length (streams w) \<Longrightarrow> trf s' (handleUpdate part_000 f b w) = trf s' w"
    and "cnt (length (streams w)) (handleUpdate part_000 f b w) = 2"
    and "buf (length (streams w)) (handleUpdate part_000 f b w) = []"
    and "trf (length (streams w)) (handleUpdate part_000 f b w)"
    and "fatal_of s' (effects (handleUpdate part_000 f b w)) = fatal_of s' (effects w)"
    and "ended_in s' (effects (handleUpdate part_000 f b w)) \<longleftrightarrow> ended_in s' (effects w)"
    and "outstanding s' (handleUpdate part_000 f b w) =
           outstanding s' w + (if s' = length (streams w) then 1 else 0)"
  using assms
  by (simp_all add: handleUpdate_def Let_def stream_write_def ReBundle_transform_def
        registerAsync_def ReBundle_def cnt_def buf_def trf_def outstanding_def for_stream_def
        nth_update_cases nth_append)

lemma filter_remove_nth:
  assumes "i < length xs"
  shows "length (filter P (take i xs @ drop (Suc i) xs)) + (if P (xs ! i) then 1 else 0) =
           length (filter P xs)"
proof -
  have "xs = take i xs @ xs ! i # drop (Suc i) xs"
    using assms by (rule id_take_nth_drop)
  then have "length (filter P xs) =
               length (filter P (take i xs @ xs ! i # drop (Suc i) xs))"
    by simp
  then show ?thesis by simp
qed

lemma outstanding_remove:
  assumes "i < length (pending w)"
  shows "outstanding s (w\<lparr>pending := take i (pending w) @ drop (Suc i) (pending w)\<rparr>) +
           (if for_stream s (pending w ! i) then 1 else 0) = outstanding s w"
  using filter_remove_nth [OF assms, of "for_stream s"] by (simp add: outstanding_def)

lemma async_inv_unchanged:
  assumes inv: "async_inv w"
    and "length (streams w') = length (streams w)"
    and "timers w' = timers w"
    and "p_rebundleStream (gw w') = p_rebundleStream (gw w)"
    and "p_rebundleTimeout (gw w') = p_rebundleTimeout (gw w)"
    and "\<And>s. cnt s w' = cnt s w" "\<And>s. buf s w' = buf s w" "\<And>s. trf s w' = trf s w"
    and "\<And>s. outstanding s w' = outstanding s w"
    and "\<And>s. fatal_of s (effects w') = fatal_of s (effects w)"
    and "\<And>s. ended_in s (effects w') = ended_in s (effects w)"
    and "\<And>b s f. (b, ReTransform s f) \<in> set (pending w') \<Longrightarrow>
           (b, ReTransform s f) \<in> set (pending w)"
  shows "async_inv w'"
proof -
  have "armed s w' = armed s w" for s using assms(3) by (simp add: armed_def)
  then have si: "stream_inv s w' = stream_inv s w" for s
    using assms by (simp add: stream_inv_def)
  from inv have
    A: "\<And>b s f. (b, ReTransform s f) \<in> set (pending w) \<Longrightarrow> s < length (streams w)" and
    B: "(timers w = [] \<and> p_rebundleStream (gw w) = None)
        \<or> (\<exists>t dl s. timers w = [(t, dl, s)] \<and> p_rebundleTimeout (gw w) = Some t
              \<and> p_rebundleStream (gw w) = Some s \<and> s < length (streams w))" and
    C: "\<forall>s<length (streams w). stream_inv s w" and
    D: "\<forall>s. length (streams w) \<le> s \<longrightarrow>
            fatal_of s (effects w) = 0 \<and> \<not> ended_in s (effects w)"
    unfolding async_inv_def by blast+
  have A': "\<forall>b s f. (b, ReTransform s f) \<in> set (pending w') \<longrightarrow> s < length (streams w')"
    using A assms(2) assms(12) by metis
  have B': "(timers w' = [] \<and> p_rebundleStream (gw w') = None)
        \<or> (\<exists>t dl s. timers w' = [(t, dl, s)] \<and> p_rebundleTimeout (gw w') = Some t
              \<and> p_rebundleStream (gw w') = Some s \<and> s < length (streams w'))"
    using B assms(2-5) by simp
  have C': "\<forall>s<length (streams w'). stream_inv s w'"
    using C si assms(2) by simp
  have D': "\<forall>s. length (streams w') \<le> s \<longrightarrow>
            fatal_of s (effects w') = 0 \<and> \<not> ended_in s (effects w')"
    using D assms(2) assms(10) assms(11) by simp
  show ?thesis unfolding async_inv_def using A' B' C' D' by blast
qed

lemma obs_GulpWatchify_transform [simp]:
  "cnt s (GulpWatchify_transform rv v w) = cnt s w"
  "buf s (GulpWatchify_transform rv v w) = buf s w"
  "trf s (GulpWatchify_transform rv v w) = trf s w"
  "outstanding s (GulpWatchify_transform rv v w) = outstanding s w"
  "fatal_of s (effects (GulpWatchify_transform rv v w)) = fatal_of s (effects w)"
  "ended_in s (effects (GulpWatchify_transform rv v w)) = ended_in s (effects w)"
  by (simp_all add: cnt_def buf_def trf_def outstanding_def GulpWatchify_transform_def Let_def
        for_stream_def)

lemma obs_firstBundleCallback [simp]:
  "cnt s (firstBundleCallback rv f err src w) = cnt s w"
  "buf s (firstBundleCallback rv f err src w) = buf s w"
  "trf s (firstBundleCallback rv f err src w) = trf s w"
  "outstanding s (firstBundleCallback rv f err src w) = outstanding s w"
  "fatal_of s (effects (firstBundleCallback rv f err src w)) = fatal_of s (effects w)"
  "ended_in s (effects (firstBundleCallback rv f err src w)) = ended_in s (effects w)"
  by (simp_all add: cnt_def buf_def trf_def outstanding_def firstBundleCallback_def Let_def
        handleError_def)

lemma async_inv_Transform: "async_inv w \<Longrightarrow> async_inv (GulpWatchify_transform rv v w)"
  by (erule async_inv_unchanged) (auto dest!: pending_GulpWatchify_transform)

lemma async_inv_first:
  assumes inv: "async_inv w" and i: "i < length (pending w)"
    and m: "snd (pending w ! i) = MainTransform v"
  shows "async_inv (firstBundleCallback rv v err src
                      (w\<lparr>pending := take i (pending w) @ drop (Suc i) (pending w)\<rparr>))"
proof (rule async_inv_unchanged [OF inv])
  fix s
  have "\<not> for_stream s (pending w ! i)" using m by (simp add: for_stream_def)
  with outstanding_remove [OF i, of s]
  show "outstanding s (firstBundleCallback rv v err src
          (w\<lparr>pending := take i (pending w) @ drop (Suc i) (pending w)\<rparr>)) = outstanding s w"
    by simp
qed (auto dest: in_set_takeD in_set_dropD)

lemma async_invD:
  assumes "async_inv w"
  shows "\<And>b s f. (b, ReTransform s f) \<in> set (pending w) \<Longrightarrow> s < length (streams w)"
    and "(timers w = [] \<and> p_rebundleStream (gw w) = None)
         \<or> (\<exists>t dl s. timers w = [(t, dl, s)] \<and> p_rebundleTimeout (gw w) = Some t
               \<and> p_rebundleStream (gw w) = Some s \<and> s < length (streams w))"
    and "\<And>s. s < length (streams w) \<Longrightarrow> stream_inv s w"
    and "\<And>s. length (streams w) \<le> s \<Longrightarrow> fatal_of s (effects w) = 0"
    and "\<And>s. length (streams w) \<le> s \<Longrightarrow> \<not> ended_in s (effects w)"
  using assms unfolding async_inv_def by blast+

lemma async_invI:
  assumes "\<And>b s f. (b, ReTransform s f) \<in> set (pending w) \<Longrightarrow> s < length (streams w)"
    and "(timers w = [] \<and> p_rebundleStream (gw w) = None)
         \<or> (\<exists>t dl s. timers w = [(t, dl, s)] \<and> p_rebundleTimeout (gw w) = Some t
               \<and> p_rebundleStream (gw w) = Some s \<and> s < length (streams w))"
    and "\<And>s. s < length (streams w) \<Longrightarrow> stream_inv s w"
    and "\<And>s. length (streams w) \<le> s \<Longrightarrow> fatal_of s (effects w) = 0"
    and "\<And>s. length (streams w) \<le> s \<Longrightarrow> \<not> ended_in s (effects w)"
  shows "async_inv w"
  using assms unfolding async_inv_def by blast

lemma async_inv_rebundled:
  assumes inv: "async_inv w" and i: "i < length (pending w)"
    and p: "pending w ! i = (b, ReTransform s f)"
  shows "async_inv (ReBundle_bundled part_000 s f err src
                      (w\<lparr>pending := take i (pending w) @ drop (Suc i) (pending w)\<rparr>))"
    (is "async_inv ?w'")
proof -
  let ?w1 = "w\<lparr>pending := take i (pending w) @ drop (Suc i) (pending w)\<rparr>"
  note d = async_invD [OF inv]
  have "pending w ! i \<in> set (pending w)" using i by simp
  then have s: "s < length (streams w)" using p d(1) by simp
  then have s1: "s < length (streams ?w1)" by simp
  note ob = obs_ReBundle_bundled [OF s1]
  have o: "outstanding s ?w1 + 1 = outstanding s w"
    using outstanding_remove [OF i, of s] p by (simp add: for_stream_def)
  have o': "outstanding s' ?w1 = outstanding s' w" if "s' \<noteq> s" for s'
    using outstanding_remove [OF i, of s'] p that by (simp add: for_stream_def)
  have sub: "x \<in> set (pending ?w1) \<Longrightarrow> x \<in> set (pending w)" for x
    by (auto dest: in_set_takeD in_set_dropD)
  show ?thesis
  proof (rule async_invI)
    fix c s' g assume "(c, ReTransform s' g) \<in> set (pending ?w')"
    from pending_frames(4) [OF this]
    have "(c, ReTransform s' g) \<in> set (pending ?w1) \<or> s' = s" by auto
    then have "(c, ReTransform s' g) \<in> set (pending w) \<or> s' = s" using sub by blast
    then have "s' < length (streams w)" using d(1) s by blast
    then show "s' < length (streams ?w')" by simp
  next
    show "(timers ?w' = [] \<and> p_rebundleStream (gw ?w') = None)
         \<or> (\<exists>t dl s. timers ?w' = [(t, dl, s)] \<and> p_rebundleTimeout (gw ?w') = Some t
               \<and> p_rebundleStream (gw ?w') = Some s \<and> s < length (streams ?w'))"
      using d(2) by simp
  next
    fix s' assume "s' < length (streams ?w')"
    then have s': "s' < length (streams w)" by simp
    show "stream_inv s' ?w'"
    proof (cases "s' = s")
      case False
      then show ?thesis using d(3) [OF s'] o' [OF False]
        by (auto simp add: stream_inv_def ob)
    next
      case True
      then show ?thesis using d(3) [OF s] o
        by (auto simp add: stream_inv_def ob)
    qed
  next
    fix s' assume "length (streams ?w') \<le> s'"
    then have "length (streams w) \<le> s'" "s' \<noteq> s" using s by simp_all
    then show "fatal_of s' (effects ?w') = 0" using d(4) by (simp add: ob)
  next
    fix s' assume "length (streams ?w') \<le> s'"
    then have "length (streams w) \<le> s'" "s' \<noteq> s" using s by simp_all
    then show "\<not> ended_in s' (effects ?w')" using d(5) by (simp add: ob)
  qed
qed

lemma outstanding_none:
  assumes "\<And>b s' f. (b, ReTransform s' f) \<in> set (pending w) \<Longrightarrow> s' < n" and "n \<le> s"
  shows "outstanding s w = 0"
proof -
  have "\<not> for_stream s x" if "x \<in> set (pending w)" for x
  proof (cases x)
    case (Pair b c)
    show ?thesis
    proof (cases c)
      case (MainTransform g)
      then show ?thesis using Pair by (simp add: for_stream_def)
    next
      case (ReTransform s' g)
      with Pair that have "(b, ReTransform s' g) \<in> set (pending w)" by simp
      from assms(1) [OF this] assms(2) have "s' \<noteq> s" by simp
      then show ?thesis using Pair ReTransform by (simp add: for_stream_def)
    qed
  qed
  then show ?thesis by (simp add: outstanding_def)
qed

lemma async_inv_emit: "async_inv w \<Longrightarrow> async_inv (eff (Emit x) w)"
  by (erule async_inv_unchanged) simp_all

lemma async_inv_watch: "async_inv w \<Longrightarrow> async_inv (eff (SetMaxListeners b v) w)"
  by (erule async_inv_unchanged) simp_all

lemma async_inv_update:
  assumes inv: "async_inv w"
  shows "async_inv (handleUpdate part_000 f b (eff (Emit (Update f b)) w))" (is "async_inv ?w'")
proof (cases "truthy (p_rebundle (gw w))")
  case False
  then have "?w' = eff (Emit (Update f b)) w" by (simp add: handleUpdate_off)
  then show ?thesis using async_inv_emit [OF inv] by simp
next
  case True
  let ?w0 = "eff (Emit (Update f b)) w"
  let ?n = "length (streams w)"
  have on: "truthy (p_rebundle (gw ?w0))" using True by simp
  note hu = handleUpdate_simps [OF on]
  note d = async_invD [OF inv]
  from d(2) consider
      (idle) "timers w = []" "p_rebundleStream (gw w) = None"
    | (armed) t dl s where "timers w = [(t, dl, s)]" "p_rebundleTimeout (gw w) = Some t"
        "p_rebundleStream (gw w) = Some s" "s < ?n"
    by auto
  then show ?thesis
  proof cases
    case idle
    have st: "p_rebundleStream (gw ?w0) = None" using idle by simp
    note ob = obs_handleUpdate_new_stream [OF on st, simplified]
    have len: "length (streams ?w') = Suc ?n" using idle by (simp add: hu)
    have cur: "current_stream ?w0 = ?n" using idle by (simp add: current_stream_def)
    have tm: "timers ?w' = [(next_timer w, now w + rebundle_delay part_000 (gw w), ?n)]"
      using idle by (simp add: hu cur)
    have o0: "outstanding ?n w = 0" by (rule outstanding_none [OF d(1)]) simp_all
    show ?thesis
    proof (rule async_invI)
      fix c s' g assume "(c, ReTransform s' g) \<in> set (pending ?w')"
      from pending_handleUpdate [OF on this]
      have "(c, ReTransform s' g) \<in> set (pending w) \<or> s' = ?n" using cur by auto
      then show "s' < length (streams ?w')" using d(1) len by (auto simp add: less_Suc_eq)
    next
      show "(timers ?w' = [] \<and> p_rebundleStream (gw ?w') = None)
         \<or> (\<exists>t dl s. timers ?w' = [(t, dl, s)] \<and> p_rebundleTimeout (gw ?w') = Some t
               \<and> p_rebundleStream (gw ?w') = Some s \<and> s < length (streams ?w'))"
        using tm len by (simp add: hu cur)
    next
      fix s' assume "s' < length (streams ?w')"
      then consider (old) "s' < ?n" | (new) "s' = ?n" using len by (auto simp add: less_Suc_eq)
      then show "stream_inv s' ?w'"
      proof cases
        case old
        then have "armed s' ?w' = 0" "armed s' w = 0" using tm idle by (simp_all add: armed_def)
        then show ?thesis using d(3) [OF old] old
          by (auto simp add: stream_inv_def ob)
      next
        case new
        have "armed ?n ?w' = 1" using tm by (simp add: armed_def)
        then show ?thesis using new o0 d(4) [of ?n] d(5) [of ?n]
          by (simp add: stream_inv_def ob)
      qed
    next
      fix s' assume "length (streams ?w') \<le> s'"
      then show "fatal_of s' (effects ?w') = 0" using d(4) [of s'] len by (simp add: ob)
    next
      fix s' assume "length (streams ?w') \<le> s'"
      then show "\<not> ended_in s' (effects ?w')" using d(5) [of s'] len by (simp add: ob)
    qed
  next
    case armed
    have st: "p_rebundleStream (gw ?w0) = Some s" using armed by simp
    have s0: "s < length (streams ?w0)" using armed by simp
    note ob = obs_handleUpdate_same_stream [OF on st s0, simplified]
    have len: "length (streams ?w') = ?n" using armed by (simp add: hu)
    have cur: "current_stream ?w0 = s" using armed by (simp add: current_stream_def)
    have tm: "timers ?w' = [(next_timer w, now w + rebundle_delay part_000 (gw w), s)]"
      using armed by (simp add: hu cur)
    have ar: "armed s' ?w' = armed s' w" for s' using tm armed by (simp add: armed_def)
    have a1: "armed s w = 1" using armed by (simp add: armed_def)
    show ?thesis
    proof (rule async_invI)
      fix c s' g assume "(c, ReTransform s' g) \<in> set (pending ?w')"
      from pending_handleUpdate [OF on this]
      have "(c, ReTransform s' g) \<in> set (pending w) \<or> s' = s" using cur by auto
      then show "s' < length (streams ?w')" using d(1) len armed(4) by auto
    next
      show "(timers ?w' = [] \<and> p_rebundleStream (gw ?w') = None)
         \<or> (\<exists>t dl s. timers ?w' = [(t, dl, s)] \<and> p_rebundleTimeout (gw ?w') = Some t
               \<and> p_rebundleStream (gw ?w') = Some s \<and> s < length (streams ?w'))"
        using tm len armed(4) by (simp add: hu cur)
    next
      fix s' assume "s' < length (streams ?w')"
      then have s': "s' < ?n" using len by simp
      show "stream_inv s' ?w'"
      proof (cases "s' = s")
        case False
        then show ?thesis using d(3) [OF s']
          by (auto simp add: stream_inv_def ob ar)
      next
        case True
        then show ?thesis using d(3) [OF armed(4)] a1
          by (auto simp add: stream_inv_def ob ar)
      qed
    next
      fix s' assume "length (streams ?w') \<le> s'"
      then show "fatal_of s' (effects ?w') = 0" using d(4) [of s'] len by (simp add: ob)
    next
      fix s' assume "length (streams ?w') \<le> s'"
      then show "\<not> ended_in s' (effects ?w')" using d(5) [of s'] len by (simp add: ob)
    qed
  qed
qed

lemma async_inv_elapse:
  assumes inv: "async_inv w"
  shows "async_inv (elapse part_000 d w)"
proof -
  note dd = async_invD [OF inv]
  from dd(2) consider
      (idle) "timers w = []" "p_rebundleStream (gw w) = None"
    | (armed) t dl s where "timers w = [(t, dl, s)]" "p_rebundleTimeout (gw w) = Some t"
        "p_rebundleStream (gw w) = Some s" "s < length (streams w)"
    by auto
  then show ?thesis
  proof cases
    case idle
    then have "elapse part_000 d w = w\<lparr>timers := [], now := now w + d\<rparr>"
      by (simp add: elapse_def fire_def Let_def)
    moreover have "async_inv (w\<lparr>timers := [], now := now w + d\<rparr>)"
      by (rule async_inv_unchanged [OF inv]) (simp_all add: idle)
    ultimately show ?thesis by simp
  next
    case armed
    show ?thesis
    proof (cases "dl \<le> now w + d")
      case False
      then have "elapse part_000 d w = w\<lparr>timers := [(t, dl, s)], now := now w + d\<rparr>"
        using armed by (simp add: elapse_def fire_def Let_def)
      moreover have "async_inv (w\<lparr>timers := [(t, dl, s)], now := now w + d\<rparr>)"
        by (rule async_inv_unchanged [OF inv]) (simp_all add: armed)
      ultimately show ?thesis by simp
    next
      case True
      let ?w2 = "w\<lparr>timers := [], now := max (now w) dl\<rparr>"
      let ?w' = "(timeout_callback part_000 s ?w2)\<lparr>now := now w + d\<rparr>"
      have e: "elapse part_000 d w = ?w'"
        using armed True by (simp add: elapse_def fire_def Let_def)
      have s2: "s < length (streams ?w2)" using armed by simp
      note ob = obs_timeout_callback [OF s2, simplified]
      have a1: "armed s w = 1" using armed by (simp add: armed_def)
      have a0: "armed s' w = 0" if "s' \<noteq> s" for s' using armed that by (simp add: armed_def)
      have a': "armed s' ?w' = 0" for s' by (simp add: armed_def)
      have "async_inv ?w'"
      proof (rule async_invI)
        fix c s' g assume "(c, ReTransform s' g) \<in> set (pending ?w')"
        then show "s' < length (streams ?w')" using dd(1) by simp
      next
        show "(timers ?w' = [] \<and> p_rebundleStream (gw ?w') = None)
           \<or> (\<exists>t dl s. timers ?w' = [(t, dl, s)] \<and> p_rebundleTimeout (gw ?w') = Some t
                 \<and> p_rebundleStream (gw ?w') = Some s \<and> s < length (streams ?w'))"
          by simp
      next
        fix s' assume "s' < length (streams ?w')"
        then have s': "s' < length (streams w)" by simp
        show "stream_inv s' ?w'"
        proof (cases "s' = s")
          case False
          then show ?thesis using dd(3) [OF s'] a0 [OF False] a' [of s']
            by (auto simp add: stream_inv_def ob)
        next
          case True
          then show ?thesis using dd(3) [OF armed(4)] a1 a' [of s]
            by (auto simp add: stream_inv_def ob)
        qed
      next
        fix s' assume "length (streams ?w') \<le> s'"
        then show "fatal_of s' (effects ?w') = 0" using dd(4) [of s'] by (simp add: ob)
      next
        fix s' assume "length (streams ?w') \<le> s'"
        then have "length (streams w) \<le> s'" "s' \<noteq> s" using armed(4) by simp_all
        then show "\<not> ended_in s' (effects ?w')" using dd(5) [of s'] by (simp add: ob)
      qed
      with e show ?thesis by simp
    qed
  qed
qed

lemma async_inv_step:
  assumes inv: "async_inv w"
  shows "async_inv (step part_000 e w)"
proof (cases e)
  case (Transform v)
  then show ?thesis using async_inv_Transform [OF inv] by (simp add: step_def)
next
  case (BundleDone i err source)
  show ?thesis
  proof (cases "i < length (pending w)")
    case False
    then show ?thesis using inv BundleDone by (simp add: step_BundleDone)
  next
    case True
    show ?thesis
    proof (cases "snd (pending w ! i)")
      case (MainTransform g)
      then show ?thesis using BundleDone True async_inv_first [OF inv True MainTransform]
        by (simp add: step_BundleDone)
    next
      case (ReTransform s g)
      then have "pending w ! i = (fst (pending w ! i), ReTransform s g)"
        by (metis prod.collapse)
      from async_inv_rebundled [OF inv True this] show ?thesis
        using BundleDone True ReTransform by (simp add: step_BundleDone)
    qed
  qed
next
  case (UpdateEv b)
  then show ?thesis using inv async_inv_update [OF inv] by (simp add: step_UpdateEv)
next
  case (WatchEv b v)
  then show ?thesis using inv async_inv_watch [OF inv] by (simp add: step_def)
next
  case (Elapse d)
  then show ?thesis using async_inv_elapse [OF inv] by (simp add: step_def)
next
  case (External r ob)
  have "async_inv (w\<lparr>store := (store w)[r := ob]\<rparr>)"
    by (rule async_inv_unchanged [OF inv]) simp_all
  then show ?thesis using External by (simp add: step_def)
qed

lemma async_inv_init: "async_inv (init part_000 oa h)"
  by (rule async_invI) simp_all

lemma async_inv_run: "async_inv (run part_000 evs (init part_000 oa h))"
  by (induction evs rule: rev_induct) (simp_all add: async_inv_init async_inv_step)

text \<open>
  What part_000 gains with \<^verbatim>\<open>registerAsync\<close> and \<^verbatim>\<open>finishIfResolved\<close>: in every world
  the instance can reach, a ReBundle stream whose end marker was pushed has no bundle
  callback pending, no timeout pending, no chunk waiting in its buffer, and its counter
  of unresolved operations is zero.
\<close>

lemma part_000_end_marker_only_when_resolved:
  assumes "ended_in s (effects (run part_000 evs (init part_000 oa h)))"
  shows "s < length (streams (run part_000 evs (init part_000 oa h)))"
    and "outstanding s (run part_000 evs (init part_000 oa h)) = 0"
    and "armed s (run part_000 evs (init part_000 oa h)) = 0"
    and "buf s (run part_000 evs (init part_000 oa h)) = []"
    and "cnt s (run part_000 evs (init part_000 oa h)) = 0"
proof -
  let ?w = "run part_000 evs (init part_000 oa h)"
  note d = async_invD [OF async_inv_run [of evs oa h]]
  have "\<not> length (streams ?w) \<le> s" using d(5) [of s] assms by blast
  then show s: "s < length (streams ?w)" by simp
  from d(3) [OF s] assms
  show "outstanding s ?w = 0" "armed s ?w = 0" "buf s ?w = []" "cnt s ?w = 0"
    by (auto simp add: stream_inv_def)
qed

end
